theory Spec2Isabelle
  imports Main "HOL-Library.Word"
begin

section \<open>Eager loading of associations (eager.go)\<close>

text \<open>
  The loader of \<^verbatim>\<open>eager.go\<close> works on a model through reflection, on a query object
  \<^verbatim>\<open>q\<close> that it mutates, on the package variable \<^verbatim>\<open>emode\<close>, and on three collaborators
  that are not part of the file: the introspection of a model
  (\<^verbatim>\<open>associations.AssociationsForStruct\<close>), the query builder and the database.
  The embedding makes each of them explicit:
  \<^item> Go values are a tree (\<open>val\<close>); a pointer is the path from the root of the tree to
    the value it addresses, so that \<^verbatim>\<open>v.Index(i).Addr()\<close> and
    \<^verbatim>\<open>FieldByName(n).Addr()\<close> extend the path of the model;
  \<^item> \<^verbatim>\<open>q\<close>, \<^verbatim>\<open>emode\<close>, the memory and a trace of the calls made are the
    components of a \<open>state\<close>, passed in and returned;
  \<^item> the collaborators are the fields of an environment \<open>env\<close>, a parameter of every
    function;
  \<^item> an \<^verbatim>\<open>error\<close> is a value of the datatype \<open>error\<close>, \<^verbatim>\<open>nil\<close> is \<open>None\<close>;
  \<^item> the recursion of \<^verbatim>\<open>eagerLoadDefault\<close> is bounded by a call depth; a call that
    needs more depth than it was given yields \<open>None\<close>.
\<close>

subsection \<open>Values, pointers and memory\<close>

datatype val =
    VNil
  | VInt int
  | VStr string
  | VStruct "(string \<times> val) list"
  | VSlice "val list"
  | VArray "val list"

text \<open>The kinds of \<^verbatim>\<open>reflect.Kind\<close> that the loader tells apart.\<close>

datatype kind = Invalid | Int_kind | String_kind | Struct | Slice | Array

fun Kind :: "val \<Rightarrow> kind" where
  "Kind VNil = Invalid"
| "Kind (VInt i) = Int_kind"
| "Kind (VStr s) = String_kind"
| "Kind (VStruct fs) = Struct"
| "Kind (VSlice xs) = Slice"
| "Kind (VArray xs) = Array"

text \<open>\<^verbatim>\<open>v.Len()\<close> of a slice or an array.\<close>

fun Len :: "val \<Rightarrow> nat" where
  "Len (VSlice xs) = length xs"
| "Len (VArray xs) = length xs"
| "Len v = 0"

datatype step = Fld string | Idx nat

type_synonym ptr = "step list"

fun lookup :: "val \<Rightarrow> ptr \<Rightarrow> val option" where
  "lookup v [] = Some v"
| "lookup (VStruct fs) (Fld f # p) =
     (case map_of fs f of None \<Rightarrow> None | Some x \<Rightarrow> lookup x p)"
| "lookup (VSlice xs) (Idx i # p) = (if i < length xs then lookup (xs ! i) p else None)"
| "lookup (VArray xs) (Idx i # p) = (if i < length xs then lookup (xs ! i) p else None)"
| "lookup v (st # p) = None"

text \<open>What a pointer addresses; a pointer that addresses nothing reads as \<open>VNil\<close>.\<close>

definition deref :: "val \<Rightarrow> ptr \<Rightarrow> val" where
  "deref h p = (case lookup h p of None \<Rightarrow> VNil | Some v \<Rightarrow> v)"

fun setField :: "string \<Rightarrow> (val \<Rightarrow> val) \<Rightarrow> (string \<times> val) list \<Rightarrow> (string \<times> val) list" where
  "setField f g [] = []"
| "setField f g ((n, x) # fs) = (if n = f then (n, g x) # fs else (n, x) # setField f g fs)"

text \<open>Writing through a pointer; a pointer that addresses nothing writes nothing.\<close>

fun put :: "val \<Rightarrow> ptr \<Rightarrow> val \<Rightarrow> val" where
  "put v [] w = w"
| "put (VStruct fs) (Fld f # p) w = VStruct (setField f (\<lambda>x. put x p w) fs)"
| "put (VSlice xs) (Idx i # p) w =
     (if i < length xs then VSlice (xs[i := put (xs ! i) p w]) else VSlice xs)"
| "put (VArray xs) (Idx i # p) w =
     (if i < length xs then VArray (xs[i := put (xs ! i) p w]) else VArray xs)"
| "put v (st # p) w = v"

subsection \<open>Errors\<close>

text \<open>
  \<open>ErrNoRows\<close> is \<^verbatim>\<open>sql.ErrNoRows\<close>; \<open>ErrWrap\<close> is an error wrapped by
  \<^verbatim>\<open>github.com/pkg/errors\<close>, which \<^verbatim>\<open>errors.Cause\<close> unwraps; \<open>Errorf\<close> is the
  error built by \<^verbatim>\<open>errors.Errorf\<close> from a format and the mode it prints. A panic of
  the reflection calls is the value \<open>Panic\<close>: every call of the loader is followed by
  \<^verbatim>\<open>if err != nil { return err }\<close>, so it reaches the caller as the panic does.
\<close>

datatype error =
    ErrNoRows
  | ErrOther string
  | ErrWrap string error
  | Errorf string "8 word"
  | Panic string

fun Cause :: "error \<Rightarrow> error" where
  "Cause (ErrWrap m e) = Cause e"
| "Cause e = e"

text \<open>The test \<^verbatim>\<open>err != nil && errors.Cause(err) != sql.ErrNoRows\<close>.\<close>

fun fatal :: "error option \<Rightarrow> bool" where
  "fatal None = False"
| "fatal (Some e) = (Cause e \<noteq> ErrNoRows)"

subsection \<open>Eager modes and queries\<close>

type_synonym eagerMode = "8 word"

definition EagerDefault :: eagerMode where
  "EagerDefault = 0"

definition EagerCache :: eagerMode where
  "EagerCache = 1"

definition eagerNotSpecified :: eagerMode where
  "eagerNotSpecified = 2"

text \<open>
  The fields of \<^verbatim>\<open>Query\<close> that the loader reads or that the builder calls of the
  loader set. \<open>Connection\<close> identifies the connection of the query.
\<close>

record Query =
  Connection :: nat
  eager :: bool
  eagerFields :: "string list"
  eagerMode :: eagerMode
  whereClauses :: "(string \<times> val list) list"
  orderClauses :: "string list"
  RawSQL :: "string \<times> val list"

text \<open>
  Modelled from the spec: the builder calls of \<^verbatim>\<open>query.go\<close>, which is not among the
  sources. \<open>Q\<close> is the constructor (its mode is \<open>eagerNotSpecified\<close>, as the comment
  on that constant in \<^verbatim>\<open>eager.go\<close> says), \<open>Where\<close> is
  \<^verbatim>\<open>Query.withPredicate\<close>, \<open>Order\<close> is \<^verbatim>\<open>Query.withOrder\<close> and \<open>RawQuery\<close> is
  \<^verbatim>\<open>Query.withRawStatement\<close>.
\<close>

definition Q :: "nat \<Rightarrow> Query" where
  "Q c = \<lparr>Connection = c, eager = True, eagerFields = [], eagerMode = eagerNotSpecified,
          whereClauses = [], orderClauses = [], RawSQL = ([], [])\<rparr>"

definition Where :: "Query \<Rightarrow> string \<Rightarrow> val list \<Rightarrow> Query" where
  "Where qu stmt args = qu\<lparr>whereClauses := whereClauses qu @ [(stmt, args)]\<rparr>"

definition Order :: "Query \<Rightarrow> string \<Rightarrow> Query" where
  "Order qu stmt = qu\<lparr>orderClauses := orderClauses qu @ [stmt]\<rparr>"

definition RawQuery :: "Query \<Rightarrow> string \<Rightarrow> val list \<Rightarrow> Query" where
  "RawQuery qu stmt args = qu\<lparr>RawSQL := (stmt, args)\<rparr>"

subsection \<open>Associations and the collaborators\<close>

record InnerAssociation =
  Name :: string
  Fields :: string

text \<open>
  An association as the loader sees it through the interface \<^verbatim>\<open>Association\<close>:
  \<open>aKind\<close> is \<^verbatim>\<open>Kind()\<close>, \<open>aSkipped\<close> is \<^verbatim>\<open>Skipped()\<close>, \<open>aConstraint\<close> is
  \<^verbatim>\<open>Constraint()\<close> (computed from the owning record as it is when the call is
  made), \<open>aInner\<close> is \<^verbatim>\<open>InnerAssociations()\<close>. \<open>aOrderBy\<close> is \<open>None\<close> for an
  association that does not implement \<^verbatim>\<open>AssociationSortable\<close> and the result of
  \<^verbatim>\<open>OrderBy()\<close> otherwise.

  Modelled from the spec: \<^verbatim>\<open>Interface()\<close>, of the package \<^verbatim>\<open>associations\<close>, which
  is not among the sources. It is the address of the association's field in the owning
  record; \<open>aField\<close> is the name of that field.
\<close>

record association =
  aField :: string
  aKind :: kind
  aSkipped :: bool
  aConstraint :: "val \<Rightarrow> string \<times> val list"
  aOrderBy :: "string option"
  aInner :: "InnerAssociation list"

text \<open>
  The collaborators. \<open>AssociationsForStruct\<close> gets the model (the value the pointer
  addresses) and the field names. \<open>ToSQL\<close> gets the query and the value of the
  destination. \<open>All\<close> and \<open>First\<close> get the query and the value of the destination,
  and return the error and the value they leave in the destination.
\<close>

record env =
  AssociationsForStruct :: "val \<Rightarrow> string list \<Rightarrow> error + association list"
  ToSQL :: "Query \<Rightarrow> val \<Rightarrow> string \<times> val list"
  All :: "Query \<Rightarrow> val \<Rightarrow> error option \<times> val"
  First :: "Query \<Rightarrow> val \<Rightarrow> error option \<times> val"

subsection \<open>The state and the trace\<close>

text \<open>
  The trace records the calls whose number and order the specification speaks about:
  \<open>Enter\<close> is a call of \<^verbatim>\<open>eagerLoadDefault\<close> on a model, with the value of
  \<^verbatim>\<open>q.eagerFields\<close> at that moment, \<open>Exit\<close> its return with the error returned,
  \<open>FetchAll\<close> and \<open>FetchFirst\<close> are the calls of \<^verbatim>\<open>query.All\<close> and
  \<^verbatim>\<open>query.First\<close>, with the query, the destination and the error returned.
\<close>

datatype event =
    Enter ptr "string list"
  | Exit ptr "error option"
  | FetchAll Query ptr "error option"
  | FetchFirst Query ptr "error option"

record state =
  emode :: eagerMode
  q :: Query
  heap :: val
  log :: "event list"

type_synonym result = "(error option \<times> state) option"

type_synonym loader = "ptr \<Rightarrow> state \<Rightarrow> result"

definition emit :: "event \<Rightarrow> state \<Rightarrow> state" where
  "emit ev s = s\<lparr>log := log s @ [ev]\<rparr>"

subsection \<open>Setting the mode\<close>

definition SetEagerMode :: "eagerMode \<Rightarrow> state \<Rightarrow> state" where
  "SetEagerMode m s = s\<lparr>emode := m\<rparr>"

definition Query_SetEagerMode :: "Query \<Rightarrow> eagerMode \<Rightarrow> Query" where
  "Query_SetEagerMode qu m = qu\<lparr>eagerMode := m\<rparr>"

definition Connection_SetEagerMode :: "nat \<Rightarrow> eagerMode \<Rightarrow> Query" where
  "Connection_SetEagerMode c m = Query_SetEagerMode (Q c) m"

subsection \<open>The default strategy\<close>

text \<open>
  Lines 90 to 109: the sub-query of an association. \<open>owner\<close> is the owning record and
  \<open>dest\<close> the value of the destination, both as they are when the sub-query is built.
\<close>

definition subQuery :: "env \<Rightarrow> Query \<Rightarrow> association \<Rightarrow> val \<Rightarrow> val \<Rightarrow> Query" where
  "subQuery env qq a owner dest =
     (let query = Q (Connection qq);
          query = query\<lparr>eager := False\<rparr>;
          (whereCondition, args) = aConstraint a owner;
          query = Where query whereCondition args;
          query = (case aOrderBy a of
                     None \<Rightarrow> query
                   | Some orderClause \<Rightarrow>
                       if orderClause \<noteq> [] then Order query orderClause else query);
          (sqlSentence, args) = ToSQL env query dest
      in RawQuery query sqlSentence args)"

text \<open>
  Lines 111 to 117: the fetch of an association into its field. \<open>err\<close> is the
  function's variable \<^verbatim>\<open>err\<close>, which keeps its value when the kind of the
  association is neither a slice, an array nor a struct.
\<close>

definition fetch :: "env \<Rightarrow> ptr \<Rightarrow> association \<Rightarrow> error option \<Rightarrow> state \<Rightarrow> error option \<times> state" where
  "fetch env model a err s =
     (let dest = model @ [Fld (aField a)];
          query = subQuery env (q s) a (deref (heap s) model) (deref (heap s) dest)
      in if aKind a = Slice \<or> aKind a = Array then
           (let (e, w) = All env query (deref (heap s) dest)
            in (e, emit (FetchAll query dest e) (s\<lparr>heap := put (heap s) dest w\<rparr>)))
         else if aKind a = Struct then
           (let (e, w) = First env query (deref (heap s) dest)
            in (e, emit (FetchFirst query dest e) (s\<lparr>heap := put (heap s) dest w\<rparr>)))
         else (err, s))"

text \<open>
  Lines 125 to 132: the loop over the inner associations. The result says whether the
  function returns from inside the loop (\<open>True\<close>, with the error returned) or the loop
  ends (\<open>False\<close>, with the value of \<^verbatim>\<open>err\<close>). \<^verbatim>\<open>FieldByName\<close> panics on a model
  that is not a struct, and \<^verbatim>\<open>Addr\<close> panics on the zero value that
  \<^verbatim>\<open>FieldByName\<close> returns for a name that is not a field.
\<close>

fun innerLoop :: "loader \<Rightarrow> ptr \<Rightarrow> InnerAssociation list \<Rightarrow> error option \<Rightarrow> state
    \<Rightarrow> (bool \<times> error option \<times> state) option" where
  "innerLoop call model [] err s = Some (False, err, s)"
| "innerLoop call model (inner # rest) err s =
     (case deref (heap s) model of
        VStruct fs \<Rightarrow>
          (let s1 = s\<lparr>q := (q s)\<lparr>eagerFields := [Fields inner]\<rparr>\<rparr>
           in case map_of fs (Name inner) of
                None \<Rightarrow> Some (True, Some (Panic ''reflect: call of reflect.Value.Addr on zero Value''), s1)
              | Some x \<Rightarrow>
                  (case call (model @ [Fld (Name inner)]) s1 of
                     None \<Rightarrow> None
                   | Some (e, s2) \<Rightarrow>
                       if e \<noteq> None then Some (True, e, s2)
                       else innerLoop call model rest e s2))
      | _ \<Rightarrow> Some (True, Some (Panic ''reflect: call of reflect.Value.FieldByName on non-struct Value''), s))"

text \<open>Lines 85 to 134: the loop over the associations, and the final \<^verbatim>\<open>return nil\<close>.\<close>

fun assocLoop :: "loader \<Rightarrow> env \<Rightarrow> ptr \<Rightarrow> association list \<Rightarrow> error option \<Rightarrow> state \<Rightarrow> result" where
  "assocLoop call env model [] err s = Some (None, s)"
| "assocLoop call env model (a # assos) err s =
     (if aSkipped a then assocLoop call env model assos err s
      else
        (let (err1, s1) = fetch env model a err s
         in if fatal err1 then Some (err1, s1)
            else
              (case innerLoop call model (aInner a) err1 s1 of
                 None \<Rightarrow> None
               | Some (returned, err2, s2) \<Rightarrow>
                   if returned then Some (err2, s2)
                   else assocLoop call env model assos err2 s2)))"

text \<open>
  The same loop over the first associations of the list, without the final
  \<^verbatim>\<open>return nil\<close>. The result says whether the function returns from inside the loop
  (\<open>True\<close>, with the error returned) or these associations are done (\<open>False\<close>, with the
  value of \<^verbatim>\<open>err\<close> and the state in which the loop goes on with the next association).
\<close>

fun assocSteps :: "loader \<Rightarrow> env \<Rightarrow> ptr \<Rightarrow> association list \<Rightarrow> error option \<Rightarrow> state
    \<Rightarrow> (bool \<times> error option \<times> state) option" where
  "assocSteps call env model [] err s = Some (False, err, s)"
| "assocSteps call env model (a # assos) err s =
     (if aSkipped a then assocSteps call env model assos err s
      else
        (let (err1, s1) = fetch env model a err s
         in if fatal err1 then Some (True, err1, s1)
            else
              (case innerLoop call model (aInner a) err1 s1 of
                 None \<Rightarrow> None
               | Some (ret, err2, s2) \<Rightarrow>
                   if ret then Some (True, err2, s2)
                   else assocSteps call env model assos err2 s2)))"

text \<open>
  Lines 70 to 76: the loop over the elements of a slice or an array, from index \<open>i\<close>
  up to the length \<open>n\<close>, and the \<^verbatim>\<open>return err\<close> after it.
\<close>

function elemLoop :: "loader \<Rightarrow> ptr \<Rightarrow> nat \<Rightarrow> nat \<Rightarrow> error option \<Rightarrow> state \<Rightarrow> result" where
  "elemLoop call model i n err s =
     (if i < n then
        (case call (model @ [Idx i]) s of
           None \<Rightarrow> None
         | Some (e, s1) \<Rightarrow>
             if e \<noteq> None then Some (e, s1)
             else elemLoop call model (Suc i) n e s1)
      else Some (err, s))"
  by pat_completeness auto
termination
  by (relation "measure (\<lambda>(call, model, i, n, err, s). n - i)") auto

declare elemLoop.simps [simp del]

text \<open>
  Lines 62 to 135. The first argument bounds the depth of the calls of
  \<^verbatim>\<open>eagerLoadDefault\<close> inside one another.
\<close>

definition eagerLoadDefault_body :: "loader \<Rightarrow> env \<Rightarrow> ptr \<Rightarrow> state \<Rightarrow> result" where
  "eagerLoadDefault_body call env model s =
     (let v = deref (heap s) model
      in if Kind v = Slice \<or> Kind v = Array then elemLoop call model 0 (Len v) None s
         else
           (case AssociationsForStruct env v (eagerFields (q s)) of
              Inl e \<Rightarrow> Some (Some e, s)
            | Inr assos \<Rightarrow> assocLoop call env model assos None s))"

primrec eagerLoadDefault :: "nat \<Rightarrow> env \<Rightarrow> ptr \<Rightarrow> state \<Rightarrow> result" where
  "eagerLoadDefault 0 env model s = None"
| "eagerLoadDefault (Suc d) env model s =
     (case eagerLoadDefault_body (eagerLoadDefault d env) env model
             (emit (Enter model (eagerFields (q s))) s) of
        None \<Rightarrow> None
      | Some (err, s1) \<Rightarrow> Some (err, emit (Exit model err) s1))"

text \<open>
  A loader extends another one when it returns what the other one returns, wherever the
  other one returns: the loader of a greater depth extends the loader of a smaller one.
\<close>

definition extends :: "loader \<Rightarrow> loader \<Rightarrow> bool" where
  "extends call call' = (\<forall>p s r. call p s = Some r \<longrightarrow> call' p s = Some r)"

subsection \<open>The cache strategy and the dispatch\<close>

definition eagerLoadCache :: "ptr \<Rightarrow> state \<Rightarrow> result" where
  "eagerLoadCache model s = Some (None, s)"

definition eagerLoad :: "nat \<Rightarrow> env \<Rightarrow> ptr \<Rightarrow> state \<Rightarrow> result" where
  "eagerLoad d env model s =
     (let s1 = (if eagerMode (q s) = eagerNotSpecified
                then s\<lparr>q := (q s)\<lparr>eagerMode := emode s\<rparr>\<rparr> else s)
      in if eagerMode (q s1) = EagerDefault then eagerLoadDefault d env model s1
         else if eagerMode (q s1) = EagerCache then eagerLoadCache model s1
         else Some (Some (Errorf ''eager mode %v is not supported by pop'' (emode s1)), s1))"

subsection \<open>Reading the trace\<close>

fun isCall :: "event \<Rightarrow> bool" where
  "isCall (Enter p f) = True"
| "isCall (Exit p e) = True"
| "isCall ev = False"

fun target :: "event \<Rightarrow> ptr" where
  "target (Enter p f) = p"
| "target (Exit p e) = p"
| "target (FetchAll qu p e) = p"
| "target (FetchFirst qu p e) = p"

text \<open>
  The calls of \<^verbatim>\<open>eagerLoadDefault\<close> on the pointers of length \<open>n\<close>, with the
  field names they started with, and their returns, in the order of the trace.
\<close>

fun enteredEv :: "nat \<Rightarrow> event \<Rightarrow> (ptr \<times> string list) list" where
  "enteredEv n (Enter p f) = (if length p = n then [(p, f)] else [])"
| "enteredEv n ev = []"

definition entered :: "nat \<Rightarrow> event list \<Rightarrow> (ptr \<times> string list) list" where
  "entered n evs = concat (map (enteredEv n) evs)"

fun returnedEv :: "nat \<Rightarrow> event \<Rightarrow> (ptr \<times> error option) list" where
  "returnedEv n (Exit p e) = (if length p = n then [(p, e)] else [])"
| "returnedEv n ev = []"

definition returned :: "nat \<Rightarrow> event list \<Rightarrow> (ptr \<times> error option) list" where
  "returned n evs = concat (map (returnedEv n) evs)"

text \<open>Every call in \<open>evs\<close> is on a pointer longer than \<open>n\<close>.\<close>

definition below :: "nat \<Rightarrow> event list \<Rightarrow> bool" where
  "below n evs = (\<forall>ev \<in> set evs. isCall ev \<longrightarrow> n < length (target ev))"

text \<open>
  A loader is bracketed when each of its calls that returns adds to the trace its own
  \<open>Enter\<close>, then events of calls on longer pointers only, then its own \<open>Exit\<close>.
\<close>

definition bracketed :: "loader \<Rightarrow> bool" where
  "bracketed call = (\<forall>p s e s'. call p s = Some (e, s') \<longrightarrow>
     (\<exists>evs. log s' = log s @ Enter p (eagerFields (q s)) # evs @ [Exit p e]
            \<and> below (length p) evs))"

subsection \<open>Examples\<close>

text \<open>
  A car with four wheels in the database and no owner: \<open>Wheels\<close> is a collection,
  ordered by position, \<open>Owner\<close> a single record whose fetch finds no row.
\<close>

definition wheelsOf :: association where
  "wheelsOf = \<lparr>aField = ''Wheels'', aKind = Slice, aSkipped = False,
      aConstraint = (\<lambda>owner. (''car_id = ?'', [deref owner [Fld ''ID'']])),
      aOrderBy = Some ''position asc'', aInner = []\<rparr>"

definition ownerOf :: association where
  "ownerOf = \<lparr>aField = ''Owner'', aKind = Struct, aSkipped = False,
      aConstraint = (\<lambda>owner. (''id = ?'', [deref owner [Fld ''OwnerID'']])),
      aOrderBy = None, aInner = []\<rparr>"

definition car :: val where
  "car = VStruct [(''ID'', VInt 1), (''OwnerID'', VInt 7), (''Wheels'', VSlice []),
                  (''Owner'', VStruct [(''ID'', VInt 0)])]"

definition wheel :: "int \<Rightarrow> val" where
  "wheel i = VStruct [(''ID'', VInt i), (''CarID'', VInt 1)]"

definition carEnv :: env where
  "carEnv = \<lparr>AssociationsForStruct =
       (\<lambda>v fields. if Kind v = Struct then Inr [wheelsOf, ownerOf]
                    else Inl (ErrOther ''not a struct'')),
     ToSQL = (\<lambda>qu dest. (''SELECT'', concat (map snd (whereClauses qu)))),
     All = (\<lambda>qu dest. (None, VSlice [wheel 1, wheel 2, wheel 3, wheel 4])),
     First = (\<lambda>qu dest. (Some (ErrWrap ''first'' ErrNoRows), dest))\<rparr>"

definition carState :: state where
  "carState = \<lparr>emode = EagerDefault, q = Q 0, heap = car, log = []\<rparr>"

text \<open>
  A slice of four rows, the third of which is not a record, in an environment whose
  records have no association and where the introspection of anything else fails.
\<close>

definition plainEnv :: env where
  "plainEnv = \<lparr>AssociationsForStruct =
       (\<lambda>v fields. if Kind v = Struct then Inr [] else Inl (ErrOther ''not a struct'')),
     ToSQL = (\<lambda>qu dest. (''SELECT'', [])),
     All = (\<lambda>qu dest. (None, dest)),
     First = (\<lambda>qu dest. (None, dest))\<rparr>"

definition rowsState :: state where
  "rowsState = \<lparr>emode = EagerDefault, q = Q 0,
      heap = VSlice [VStruct [], VStruct [], VInt 0, VStruct []], log = []\<rparr>"

definition rowsAfter :: state where
  "rowsAfter = rowsState\<lparr>log :=
     [Enter [] [],
      Enter [Idx 0] [], Exit [Idx 0] None,
      Enter [Idx 1] [], Exit [Idx 1] None,
      Enter [Idx 2] [], Exit [Idx 2] (Some (ErrOther ''not a struct'')),
      Exit [] (Some (ErrOther ''not a struct''))]\<rparr>"

text \<open>
  An author with one book, the book's publisher and the publisher's address, loaded
  with the field name \<open>Books.Publisher.Address\<close>: the introspection gives each level
  the association of its field, with the rest of the field name as the filter of its
  inner association.
\<close>

definition hasMany :: "string \<Rightarrow> InnerAssociation list \<Rightarrow> association" where
  "hasMany f inner = \<lparr>aField = f, aKind = Slice, aSkipped = False,
      aConstraint = (\<lambda>owner. (''owner_id = ?'', [deref owner [Fld ''ID'']])),
      aOrderBy = None, aInner = inner\<rparr>"

definition belongsTo :: "string \<Rightarrow> InnerAssociation list \<Rightarrow> association" where
  "belongsTo f inner = \<lparr>aField = f, aKind = Struct, aSkipped = False,
      aConstraint = (\<lambda>owner. (''id = ?'', [deref owner [Fld (f @ ''ID'')]])),
      aOrderBy = None, aInner = inner\<rparr>"

definition book :: val where
  "book = VStruct [(''ID'', VInt 1), (''Publisher'', VStruct [])]"

definition publisher :: val where
  "publisher = VStruct [(''ID'', VInt 9), (''Address'', VStruct [])]"

definition author :: val where
  "author = VStruct [(''ID'', VInt 1), (''Books'', VSlice [])]"

definition libEnv :: env where
  "libEnv = \<lparr>AssociationsForStruct =
       (\<lambda>v fields.
          if fields = [''Books.Publisher.Address'']
          then Inr [hasMany ''Books'' [\<lparr>Name = ''Books'', Fields = ''Publisher.Address''\<rparr>]]
          else if fields = [''Publisher.Address'']
          then Inr [belongsTo ''Publisher'' [\<lparr>Name = ''Publisher'', Fields = ''Address''\<rparr>]]
          else if fields = [''Address''] then Inr [belongsTo ''Address'' []]
          else Inr []),
     ToSQL = (\<lambda>qu dest. (''SELECT'', [])),
     All = (\<lambda>qu dest. (None, VSlice [book])),
     First = (\<lambda>qu dest. (None, publisher))\<rparr>"

definition libState :: state where
  "libState = \<lparr>emode = EagerDefault, q = (Q 0)\<lparr>eagerFields := [''Books.Publisher.Address'']\<rparr>,
      heap = author, log = []\<rparr>"

text \<open>The fetches of a trace, with their destinations and the errors they returned.\<close>

fun fetchedEv :: "event \<Rightarrow> (ptr \<times> error option) list" where
  "fetchedEv (FetchAll qu p e) = [(p, e)]"
| "fetchedEv (FetchFirst qu p e) = [(p, e)]"
| "fetchedEv ev = []"

definition fetched :: "event list \<Rightarrow> (ptr \<times> error option) list" where
  "fetched evs = concat (map fetchedEv evs)"

text \<open>The car in a database where the fetch of a collection returns the no-rows error too.\<close>

definition noRowsEnv :: env where
  "noRowsEnv = carEnv\<lparr>All := (\<lambda>qu dest. (Some ErrNoRows, dest))\<rparr>"

text \<open>
  The error a fetch returned; what an event writes to the memory (a fetch writes what the
  collaborator leaves in its destination, the other events write nothing); the memory
  after the events of a trace.
\<close>

fun fetchErr :: "event \<Rightarrow> error option" where
  "fetchErr (FetchAll qu p e) = e"
| "fetchErr (FetchFirst qu p e) = e"
| "fetchErr ev = None"

fun exitsWith :: "error option \<Rightarrow> event \<Rightarrow> bool" where
  "exitsWith e (Exit p e') = (e' = e)"
| "exitsWith e ev = False"

fun applyEv :: "env \<Rightarrow> val \<Rightarrow> event \<Rightarrow> val" where
  "applyEv env h (FetchAll qu p e) = put h p (snd (All env qu (deref h p)))"
| "applyEv env h (FetchFirst qu p e) = put h p (snd (First env qu (deref h p)))"
| "applyEv env h ev = h"

definition replay :: "env \<Rightarrow> val \<Rightarrow> event list \<Rightarrow> val" where
  "replay env h evs = foldl (applyEv env) h evs"

text \<open>
  A trace is clean when none of its fetches returned a fatal error. From \<open>s\<close> to
  \<open>s'\<close> there are \<open>steps\<close> when the trace grew by clean events and the memory is the
  replay of these events; the load is \<open>aborted\<close> with \<open>err\<close> when the trace grew by
  clean events, then a fetch with the fatal error \<open>err\<close>, then returns with \<open>err\<close>
  only, and the memory is the replay of the events up to that fetch.
\<close>

definition clean :: "event list \<Rightarrow> bool" where
  "clean evs = (\<forall>ev \<in> set evs. \<not> fatal (fetchErr ev))"

definition steps :: "env \<Rightarrow> state \<Rightarrow> state \<Rightarrow> bool" where
  "steps env s s' = (\<exists>evs. log s' = log s @ evs \<and> heap s' = replay env (heap s) evs \<and> clean evs)"

definition aborted :: "env \<Rightarrow> state \<Rightarrow> error option \<Rightarrow> state \<Rightarrow> bool" where
  "aborted env s err s' = (\<exists>pre ev post. log s' = log s @ pre @ ev # post \<and> clean pre
      \<and> fatal (fetchErr ev) \<and> err = fetchErr ev \<and> (\<forall>x \<in> set post. exitsWith err x)
      \<and> heap s' = replay env (heap s) (pre @ [ev]))"

definition settled :: "env \<Rightarrow> state \<Rightarrow> error option \<Rightarrow> state \<Rightarrow> bool" where
  "settled env s err s' = (steps env s s' \<or> aborted env s err s')"

definition sound :: "env \<Rightarrow> loader \<Rightarrow> bool" where
  "sound env call = (\<forall>p s e s'. call p s = Some (e, s') \<longrightarrow> settled env s e s')"

text \<open>The car in a database where the fetch of a single record fails.\<close>

definition failEnv :: env where
  "failEnv = carEnv\<lparr>First := (\<lambda>qu dest. (Some (ErrOther ''connection lost''), dest))\<rparr>"

text \<open>
  The field names of the query after the events of a trace, when they were \<open>f\<close> before:
  those of the most recent call of the trace. A loader is tracked when each of its calls
  that returns no error leaves in the query the field names that the trace gives.
\<close>

fun fieldsAfterEv :: "string list \<Rightarrow> event \<Rightarrow> string list" where
  "fieldsAfterEv f (Enter p f') = f'"
| "fieldsAfterEv f ev = f"

definition fieldsAfter :: "string list \<Rightarrow> event list \<Rightarrow> string list" where
  "fieldsAfter f evs = foldl fieldsAfterEv f evs"

definition tracked :: "loader \<Rightarrow> bool" where
  "tracked call = (\<forall>p s s'. call p s = Some (None, s') \<longrightarrow>
     (\<exists>evs. log s' = log s @ Enter p (eagerFields (q s)) # evs
            \<and> eagerFields (q s') = fieldsAfter (eagerFields (q s)) evs))"

text \<open>
  The author after the fetch of the books, and a slice of two books loaded with the field
  name \<open>Publisher.Address\<close>.
\<close>

definition libLoaded :: state where
  "libLoaded = libState\<lparr>heap := VStruct [(''ID'', VInt 1), (''Books'', VSlice [book])]\<rparr>"

definition shelfState :: state where
  "shelfState = \<lparr>emode = EagerDefault, q = (Q 0)\<lparr>eagerFields := [''Publisher.Address'']\<rparr>,
      heap = VSlice [book, book], log = []\<rparr>"

section \<open>The dispatch on the eager mode\<close>

lemma mode_consts:
  "EagerDefault \<noteq> EagerCache" "EagerDefault \<noteq> eagerNotSpecified"
  "EagerCache \<noteq> eagerNotSpecified"
  by (simp_all add: EagerDefault_def EagerCache_def eagerNotSpecified_def)

text \<open>
  C4. A query whose mode is unspecified when it is loaded takes the process-wide mode of
  that moment: after \<open>SetEagerMode m\<close> the load dispatches on \<open>m\<close>, whatever the
  process-wide mode was when the query was created. A query whose own mode is default or
  cache dispatches on its own mode, whatever the process-wide mode is.
\<close>

theorem eagerLoad_late_binding:
  "(eagerMode (q s) = eagerNotSpecified \<longrightarrow>
      eagerLoad d env model (SetEagerMode m s) =
        (let s1 = (SetEagerMode m s)\<lparr>q := (q s)\<lparr>eagerMode := m\<rparr>\<rparr>
         in if m = EagerDefault then eagerLoadDefault d env model s1
            else if m = EagerCache then eagerLoadCache model s1
            else Some (Some (Errorf ''eager mode %v is not supported by pop'' m), s1)))
   \<and> (eagerMode (q s) = EagerDefault \<longrightarrow>
        eagerLoad d env model (SetEagerMode m s) = eagerLoadDefault d env model (SetEagerMode m s))
   \<and> (eagerMode (q s) = EagerCache \<longrightarrow>
        eagerLoad d env model (SetEagerMode m s) = eagerLoadCache model (SetEagerMode m s))"
  using mode_consts by (auto simp: eagerLoad_def Let_def SetEagerMode_def)

theorem eagerLoad_late_binding_witness:
  "eagerMode (q carState) = eagerNotSpecified
   \<and> emode carState = EagerDefault
   \<and> eagerLoad 1 carEnv [] (SetEagerMode EagerCache carState) =
       eagerLoadCache [] ((SetEagerMode EagerCache carState)
          \<lparr>q := (q carState)\<lparr>eagerMode := EagerCache\<rparr>\<rparr>)
   \<and> eagerLoad 1 carEnv [] (SetEagerMode EagerDefault carState) =
       eagerLoadDefault 1 carEnv [] ((SetEagerMode EagerDefault carState)
          \<lparr>q := (q carState)\<lparr>eagerMode := EagerDefault\<rparr>\<rparr>)"
  using eagerLoad_late_binding [of carState 1 carEnv "[]" EagerCache]
    eagerLoad_late_binding [of carState 1 carEnv "[]" EagerDefault] mode_consts
  by (simp add: carState_def Q_def Let_def)

text \<open>
  C7. When the mode the load dispatches on (the process-wide mode for a query whose mode
  is unspecified, the query's own mode otherwise) is none of default, cache and
  unspecified, the load returns the error built by \<^verbatim>\<open>errors.Errorf\<close>; it calls no
  strategy: the memory and the trace are as before, and only the mode of the query has
  been set.
\<close>

theorem eagerLoad_unsupported_mode:
  assumes "m = (if eagerMode (q s) = eagerNotSpecified then emode s else eagerMode (q s))"
    and "m \<notin> {EagerDefault, EagerCache, eagerNotSpecified}"
  shows "eagerLoad d env model s =
           Some (Some (Errorf ''eager mode %v is not supported by pop'' (emode s)),
                 s\<lparr>q := (q s)\<lparr>eagerMode := m\<rparr>\<rparr>)"
  using assms by (auto simp: eagerLoad_def Let_def)

theorem eagerLoad_unsupported_mode_witness:
  "(7 :: eagerMode) \<notin> {EagerDefault, EagerCache, eagerNotSpecified}
   \<and> eagerLoad 1 carEnv [] (carState\<lparr>q := Query_SetEagerMode (Q 0) 7\<rparr>) =
       Some (Some (Errorf ''eager mode %v is not supported by pop'' EagerDefault),
             carState\<lparr>q := Query_SetEagerMode (Q 0) 7\<rparr>)"
  using eagerLoad_unsupported_mode [of 7 "carState\<lparr>q := Query_SetEagerMode (Q 0) 7\<rparr>" 1 carEnv "[]"]
  by (simp add: carState_def Q_def Query_SetEagerMode_def EagerDefault_def EagerCache_def
      eagerNotSpecified_def)

text \<open>
  C10. When the mode the load dispatches on is cache, the load is the call of the stub
  \<^verbatim>\<open>eagerLoadCache\<close>: it returns no error, and the state it returns differs from
  the state it got in the mode of the query only, so the memory is unchanged (no field is
  populated) and the trace is unchanged (no sub-query is issued).
\<close>

theorem eagerLoad_cache_is_noop:
  assumes "eagerMode (q s) = EagerCache
           \<or> (eagerMode (q s) = eagerNotSpecified \<and> emode s = EagerCache)"
  shows "eagerLoad d env model s = eagerLoadCache model (s\<lparr>q := (q s)\<lparr>eagerMode := EagerCache\<rparr>\<rparr>)
     \<and> eagerLoad d env model s = Some (None, s\<lparr>q := (q s)\<lparr>eagerMode := EagerCache\<rparr>\<rparr>)
     \<and> (\<forall>s'. eagerLoad d env model s = Some (None, s') \<longrightarrow> heap s' = heap s \<and> log s' = log s)"
  using assms mode_consts by (auto simp: eagerLoad_def eagerLoadCache_def Let_def)

theorem eagerLoad_cache_is_noop_witness:
  "eagerMode (q (carState\<lparr>q := Connection_SetEagerMode 0 EagerCache\<rparr>)) = EagerCache
   \<and> eagerLoad 0 carEnv [] (carState\<lparr>q := Connection_SetEagerMode 0 EagerCache\<rparr>) =
       Some (None, carState\<lparr>q := Connection_SetEagerMode 0 EagerCache\<rparr>)"
  using eagerLoad_cache_is_noop [of "carState\<lparr>q := Connection_SetEagerMode 0 EagerCache\<rparr>" 0 carEnv "[]"]
  by (simp add: carState_def Q_def Connection_SetEagerMode_def Query_SetEagerMode_def
      eagerLoadCache_def)

section \<open>The trace of the default strategy\<close>

text \<open>
  Every call of \<^verbatim>\<open>eagerLoadDefault\<close> that returns is bracketed in the trace by its
  \<open>Enter\<close> and its \<open>Exit\<close>, and the calls it makes are on pointers that extend its
  model. The lemmas on the three loops are stated for any bracketed loader, and used for
  the loader \<open>eagerLoadDefault d env\<close> of the calls one level down.
\<close>

lemma entered_simps [simp]:
  "entered n [] = []"
  "entered n (evs @ evs') = entered n evs @ entered n evs'"
  "entered n (ev # evs) = enteredEv n ev @ entered n evs"
  by (simp_all add: entered_def)

lemma returned_simps [simp]:
  "returned n [] = []"
  "returned n (evs @ evs') = returned n evs @ returned n evs'"
  "returned n (ev # evs) = returnedEv n ev @ returned n evs"
  by (simp_all add: returned_def)

lemma below_simps [simp]:
  "below n []"
  "below n (evs @ evs') = (below n evs \<and> below n evs')"
  "below n (ev # evs) = ((isCall ev \<longrightarrow> n < length (target ev)) \<and> below n evs)"
  by (auto simp: below_def)

lemma below_entered: "below n evs \<Longrightarrow> entered n evs = []"
proof (induction evs)
  case (Cons ev evs) then show ?case by (cases ev) auto
qed simp

lemma below_returned: "below n evs \<Longrightarrow> returned n evs = []"
proof (induction evs)
  case (Cons ev evs) then show ?case by (cases ev) auto
qed simp

lemma below_mono: "below n evs \<Longrightarrow> m \<le> n \<Longrightarrow> below m evs"
  by (auto simp: below_def)

lemma below_Suc: "below (Suc n) evs \<Longrightarrow> below n evs"
  by (simp add: below_def) (meson Suc_lessD)

lemma bracketedD:
  "bracketed call \<Longrightarrow> call p s = Some (e, s') \<Longrightarrow>
     \<exists>evs. log s' = log s @ Enter p (eagerFields (q s)) # evs @ [Exit p e] \<and> below (length p) evs"
  by (auto simp: bracketed_def)

lemma fetch_log:
  "fetch env model a err s = (e, s') \<Longrightarrow>
     \<exists>evs. log s' = log s @ evs \<and> (\<forall>ev\<in>set evs. \<not> isCall ev) \<and> length evs \<le> 1"
  by (auto simp: fetch_def Let_def emit_def split: if_splits prod.splits)

lemma no_calls_below: "\<forall>ev\<in>set evs. \<not> isCall ev \<Longrightarrow> below n evs"
  by (simp add: below_def)

lemma no_calls_entered: "\<forall>ev\<in>set evs. \<not> isCall ev \<Longrightarrow> entered n evs = []"
  by (rule below_entered) (simp add: below_def)

lemma innerLoop_calls:
  "bracketed call \<Longrightarrow> innerLoop call model inners err s = Some (ret, e, s') \<Longrightarrow>
    \<exists>k evs. k \<le> length inners \<and> log s' = log s @ evs \<and> below (length model) evs
       \<and> entered (Suc (length model)) evs =
           map (\<lambda>i. (model @ [Fld (Name i)], [Fields i])) (take k inners)
       \<and> (\<not> ret \<longrightarrow> k = length inners) \<and> (ret \<longrightarrow> e \<noteq> None)"
proof (induction inners arbitrary: err s)
  case Nil
  then show ?case by (intro exI[of _ 0] exI[of _ "[]"]) simp
next
  case (Cons inner rest)
  note br = Cons.prems(1) and run = Cons.prems(2)
  show ?case
  proof (cases "deref (heap s) model")
    case (VStruct fs)
    let ?s1 = "s\<lparr>q := (q s)\<lparr>eagerFields := [Fields inner]\<rparr>\<rparr>"
    show ?thesis
    proof (cases "map_of fs (Name inner)")
      case None
      with VStruct run show ?thesis
        by (intro exI[of _ 0] exI[of _ "[]"]) (auto simp: Let_def)
    next
      case (Some x)
      with VStruct run obtain e1 s2 where c: "call (model @ [Fld (Name inner)]) ?s1 = Some (e1, s2)"
        by (auto simp: Let_def split: option.splits)
      from bracketedD[OF br c] obtain evs1 where
        l1: "log s2 = log s @ Enter (model @ [Fld (Name inner)]) [Fields inner] # evs1
               @ [Exit (model @ [Fld (Name inner)]) e1]"
        and b1: "below (Suc (length model)) evs1" by auto
      show ?thesis
      proof (cases "e1 = None")
        case False
        with VStruct Some c run have "ret" "e = e1" "s' = s2" by (auto simp: Let_def)
        with l1 b1 False show ?thesis
          by (intro exI[of _ 1] exI[of _ "Enter (model @ [Fld (Name inner)]) [Fields inner] # evs1
               @ [Exit (model @ [Fld (Name inner)]) e1]"])
             (auto simp: below_entered below_Suc)
      next
        case True
        with VStruct Some c run have r: "innerLoop call model rest e1 s2 = Some (ret, e, s')"
          by (auto simp: Let_def)
        from Cons.IH[OF br r] obtain k evs where k: "k \<le> length rest" "log s' = log s2 @ evs"
          "below (length model) evs"
          "entered (Suc (length model)) evs = map (\<lambda>i. (model @ [Fld (Name i)], [Fields i])) (take k rest)"
          "\<not> ret \<longrightarrow> k = length rest" "ret \<longrightarrow> e \<noteq> None" by auto
        with l1 b1 show ?thesis
          by (intro exI[of _ "Suc k"] exI[of _ "Enter (model @ [Fld (Name inner)]) [Fields inner] # evs1
               @ [Exit (model @ [Fld (Name inner)]) e1] @ evs"])
             (auto simp: below_entered below_Suc)
      qed
    qed
  qed (use run in \<open>(intro exI[of _ 0] exI[of _ "[]"], auto)+\<close>)
qed

lemma innerLoop_below:
  "bracketed call \<Longrightarrow> innerLoop call model inners err s = Some (ret, e, s') \<Longrightarrow>
    \<exists>evs. log s' = log s @ evs \<and> below (length model) evs"
  using innerLoop_calls by blast

lemma assocLoop_below:
  "bracketed call \<Longrightarrow> assocLoop call env model assos err s = Some (e, s') \<Longrightarrow>
    \<exists>evs. log s' = log s @ evs \<and> below (length model) evs"
proof (induction assos arbitrary: err s)
  case Nil
  then show ?case by simp
next
  case (Cons a assos)
  note br = Cons.prems(1) and run = Cons.prems(2)
  show ?case
  proof (cases "aSkipped a")
    case True
    with run Cons.IH[OF br] show ?thesis by simp
  next
    case False
    obtain err1 s1 where f: "fetch env model a err s = (err1, s1)" by (cases "fetch env model a err s")
    from fetch_log[OF f] obtain evs0 where l0: "log s1 = log s @ evs0" "below (length model) evs0"
      by (auto simp: below_def)
    show ?thesis
    proof (cases "fatal err1")
      case True
      with False f run l0 show ?thesis by auto
    next
      case nf: False
      with False f run obtain ret err2 s2 where i: "innerLoop call model (aInner a) err1 s1 = Some (ret, err2, s2)"
        by (auto split: option.splits)
      from innerLoop_below[OF br i] obtain evs1 where l1: "log s2 = log s1 @ evs1" "below (length model) evs1"
        by auto
      show ?thesis
      proof (cases ret)
        case True
        with False f nf i run l0 l1 show ?thesis by auto
      next
        case r: False
        with False f nf i run have "assocLoop call env model assos err2 s2 = Some (e, s')" by simp
        from Cons.IH[OF br this] l0 l1 show ?thesis by auto
      qed
    qed
  qed
qed

lemma elemLoop_calls:
  "bracketed call \<Longrightarrow> elemLoop call model i n err0 s = Some (err, s') \<Longrightarrow>
    \<exists>k evs. i \<le> k \<and> (i < n \<longrightarrow> k \<le> n) \<and> log s' = log s @ evs \<and> below (length model) evs
       \<and> map fst (entered (Suc (length model)) evs) = map (\<lambda>j. model @ [Idx j]) [i..<k]
       \<and> returned (Suc (length model)) evs =
           map (\<lambda>j. (model @ [Idx j], if Suc j = k then err else None)) [i..<k]
       \<and> (i < n \<longrightarrow> (err = None \<longrightarrow> k = n) \<and> (err \<noteq> None \<longrightarrow> i < k))
       \<and> (\<not> i < n \<longrightarrow> k = i \<and> err = err0)"
proof (induction call model i n err0 s arbitrary: err s' rule: elemLoop.induct)
  case (1 call model i n err0 s)
  note br = "1.prems"(1) and run = "1.prems"(2)
  show ?case
  proof (cases "i < n")
    case False
    from run False have "Some (err0, s) = Some (err, s')"
      by (subst (asm) elemLoop.simps) simp
    then have "err = err0" "s' = s" by simp_all
    with False show ?thesis by (intro exI[of _ i] exI[of _ "[]"]) simp
  next
    case True
    from run True have run': "(case call (model @ [Idx i]) s of None \<Rightarrow> None
         | Some (e, s1) \<Rightarrow> if e \<noteq> None then Some (e, s1)
             else elemLoop call model (Suc i) n e s1) = Some (err, s')"
      by (subst (asm) elemLoop.simps) simp
    then obtain e s1 where c: "call (model @ [Idx i]) s = Some (e, s1)"
      by (cases "call (model @ [Idx i]) s") auto
    from bracketedD[OF br c] obtain evs1 where
      l1: "log s1 = log s @ Enter (model @ [Idx i]) (eagerFields (q s)) # evs1 @ [Exit (model @ [Idx i]) e]"
      and b1: "below (length (model @ [Idx i])) evs1" by blast
    from b1 have b1': "below (Suc (length model)) evs1" by simp
    let ?own = "Enter (model @ [Idx i]) (eagerFields (q s)) # evs1 @ [Exit (model @ [Idx i]) e]"
    have own_below: "below (length model) ?own"
      using below_Suc[OF b1'] by simp
    have own_entered: "map fst (entered (Suc (length model)) ?own) = [model @ [Idx i]]"
      using below_entered[OF b1'] by simp
    have own_returned: "returned (Suc (length model)) ?own = [(model @ [Idx i], e)]"
      using below_returned[OF b1'] by simp
    show ?thesis
    proof (cases "e = None")
      case False
      with c run' have "err = e" "s' = s1" by simp_all
      have up: "[i..<Suc i] = [i]" by simp
      show ?thesis
        using l1 own_below own_entered own_returned True False \<open>err = e\<close> \<open>s' = s1\<close> up
        by (intro exI[of _ "Suc i"] exI[of _ ?own]) (auto simp del: entered_simps returned_simps below_simps)
    next
      case e: True
      with c run' have r: "elemLoop call model (Suc i) n e s1 = Some (err, s')" by simp
      have ne: "\<not> e \<noteq> None" using e by simp
      from "1.IH"[OF True c refl ne br r]
      obtain k evs where k: "Suc i \<le> k \<and> (Suc i < n \<longrightarrow> k \<le> n) \<and> log s' = log s1 @ evs
         \<and> below (length model) evs
         \<and> map fst (entered (Suc (length model)) evs) = map (\<lambda>j. model @ [Idx j]) [Suc i..<k]
         \<and> returned (Suc (length model)) evs =
             map (\<lambda>j. (model @ [Idx j], if Suc j = k then err else None)) [Suc i..<k]
         \<and> (Suc i < n \<longrightarrow> (err = None \<longrightarrow> k = n) \<and> (err \<noteq> None \<longrightarrow> Suc i < k))
         \<and> (\<not> Suc i < n \<longrightarrow> k = Suc i \<and> err = e)"
        by blast
      have ik: "[i..<k] = i # [Suc i..<k]" using k by (simp add: upt_rec[of i k])
      have last_none: "(if Suc i = k then err else None) = None"
        using k e by (cases "Suc i < n") auto
      have f1: "i \<le> k" using k by simp
      have f2: "i < n \<longrightarrow> k \<le> n" using k True by (cases "Suc i < n") auto
      have f3: "log s' = log s @ (?own @ evs)" using k l1 by simp
      have kb: "below (length model) evs"
        and ke: "map fst (entered (Suc (length model)) evs) = map (\<lambda>j. model @ [Idx j]) [Suc i..<k]"
        and kr: "returned (Suc (length model)) evs =
             map (\<lambda>j. (model @ [Idx j], if Suc j = k then err else None)) [Suc i..<k]"
        using k by simp_all
      have f4: "below (length model) (?own @ evs)"
        using kb own_below by (simp only: below_simps(2))
      have f5: "map fst (entered (Suc (length model)) (?own @ evs)) = map (\<lambda>j. model @ [Idx j]) [i..<k]"
      proof -
        have "map fst (entered (Suc (length model)) (?own @ evs)) =
                map fst (entered (Suc (length model)) ?own) @ map fst (entered (Suc (length model)) evs)"
          by (simp only: entered_simps(2) map_append)
        also have "\<dots> = [model @ [Idx i]] @ map (\<lambda>j. model @ [Idx j]) [Suc i..<k]"
          by (simp only: own_entered ke)
        finally show ?thesis by (simp add: ik)
      qed
      have f6: "returned (Suc (length model)) (?own @ evs) =
             map (\<lambda>j. (model @ [Idx j], if Suc j = k then err else None)) [i..<k]"
      proof -
        have "returned (Suc (length model)) (?own @ evs) =
                returned (Suc (length model)) ?own @ returned (Suc (length model)) evs"
          by (simp only: returned_simps(2))
        also have "\<dots> = [(model @ [Idx i], e)] @
             map (\<lambda>j. (model @ [Idx j], if Suc j = k then err else None)) [Suc i..<k]"
          by (simp only: own_returned kr)
        finally show ?thesis using last_none e by (simp add: ik)
      qed
      have f7: "i < n \<longrightarrow> (err = None \<longrightarrow> k = n) \<and> (err \<noteq> None \<longrightarrow> i < k)"
        using k True by (cases "Suc i < n") auto
      have f8: "\<not> i < n \<longrightarrow> k = i \<and> err = err0" using True by simp
      from f1 f2 f3 f4 f5 f6 f7 f8 show ?thesis by blast
    qed
  qed
qed

lemma body_below:
  assumes "bracketed call" and "eagerLoadDefault_body call env model s = Some (e, s')"
  shows "\<exists>evs. log s' = log s @ evs \<and> below (length model) evs"
proof (cases "Kind (deref (heap s) model) = Slice \<or> Kind (deref (heap s) model) = Array")
  case True
  with assms(2) have "elemLoop call model 0 (Len (deref (heap s) model)) None s = Some (e, s')"
    by (simp add: eagerLoadDefault_body_def Let_def)
  from elemLoop_calls[OF assms(1) this] show ?thesis by blast
next
  case False
  show ?thesis
  proof (cases "AssociationsForStruct env (deref (heap s) model) (eagerFields (q s))")
    case (Inl x)
    with False assms(2) show ?thesis by (simp add: eagerLoadDefault_body_def Let_def)
  next
    case (Inr assos)
    with False assms(2) have "assocLoop call env model assos None s = Some (e, s')"
      by (simp add: eagerLoadDefault_body_def Let_def)
    from assocLoop_below[OF assms(1) this] show ?thesis .
  qed
qed

lemma eagerLoadDefault_bracketed: "bracketed (eagerLoadDefault d env)"
proof (induction d)
  case 0
  show ?case by (simp add: bracketed_def)
next
  case (Suc d)
  show ?case unfolding bracketed_def
  proof (intro allI impI)
    fix p s e s'
    assume run: "eagerLoadDefault (Suc d) env p s = Some (e, s')"
    then obtain s1 where b: "eagerLoadDefault_body (eagerLoadDefault d env) env p
        (emit (Enter p (eagerFields (q s))) s) = Some (e, s1)" and s': "s' = emit (Exit p e) s1"
      by (auto split: option.splits)
    from body_below[OF Suc b] obtain evs where
      "log s1 = log (emit (Enter p (eagerFields (q s))) s) @ evs" "below (length p) evs" by auto
    with s' show "\<exists>evs. log s' = log s @ Enter p (eagerFields (q s)) # evs @ [Exit p e] \<and> below (length p) evs"
      by (intro exI[of _ evs]) (simp add: emit_def)
  qed
qed

section \<open>The example of the car\<close>

lemma wheelsOf_sel:
  "aField wheelsOf = ''Wheels''" "aKind wheelsOf = Slice" "\<not> aSkipped wheelsOf"
  "aOrderBy wheelsOf = Some ''position asc''" "aInner wheelsOf = []"
  by (simp_all add: wheelsOf_def)

lemma ownerOf_sel:
  "aField ownerOf = ''Owner''" "aKind ownerOf = Struct" "\<not> aSkipped ownerOf"
  "aOrderBy ownerOf = None" "aInner ownerOf = []"
  by (simp_all add: ownerOf_def)

lemma carState_sel:
  "log carState = []" "heap carState = car" "q carState = Q 0" "emode carState = EagerDefault"
  by (simp_all add: carState_def)

lemma carEnv_sel:
  "All carEnv = (\<lambda>qu dest. (None, VSlice [wheel 1, wheel 2, wheel 3, wheel 4]))"
  "First carEnv = (\<lambda>qu dest. (Some (ErrWrap ''first'' ErrNoRows), dest))"
  "AssociationsForStruct carEnv = (\<lambda>v fields. if Kind v = Struct then Inr [wheelsOf, ownerOf]
                    else Inl (ErrOther ''not a struct''))"
  by (simp_all add: carEnv_def)

section \<open>Skipped associations and the order of a sub-query\<close>

text \<open>
  C8. A skipped association is passed over: the loop over the associations gives the
  result it gives on the associations that are not skipped, so for a skipped association
  no sub-query is issued and no field is written, and the loop goes on with the next
  association. On a skipped association alone the loop returns no error and the state it
  got.
\<close>

theorem skipped_association_is_passed_over:
  "assocLoop call env model assos err s =
     assocLoop call env model (filter (\<lambda>a. \<not> aSkipped a) assos) err s
   \<and> (aSkipped a \<longrightarrow>
        assocLoop call env model (a # rest) err s = assocLoop call env model rest err s)
   \<and> (aSkipped a \<longrightarrow> assocLoop call env model [a] err s = Some (None, s))"
proof -
  have "assocLoop call env model assos err s =
     assocLoop call env model (filter (\<lambda>a. \<not> aSkipped a) assos) err s"
    by (induction assos arbitrary: err s) (simp_all split: prod.splits option.splits)
  then show ?thesis by simp
qed

theorem skipped_association_is_passed_over_witness:
  "aSkipped (wheelsOf\<lparr>aSkipped := True\<rparr>)
   \<and> assocLoop (eagerLoadDefault 0 carEnv) carEnv [] [wheelsOf\<lparr>aSkipped := True\<rparr>] None carState
       = Some (None, carState)
   \<and> assocLoop (eagerLoadDefault 0 carEnv) carEnv [] [wheelsOf\<lparr>aSkipped := True\<rparr>, ownerOf] None carState
       = assocLoop (eagerLoadDefault 0 carEnv) carEnv [] [ownerOf] None carState"
  using skipped_association_is_passed_over [of "eagerLoadDefault 0 carEnv" carEnv "[]"
      "[wheelsOf\<lparr>aSkipped := True\<rparr>, ownerOf]" None carState "wheelsOf\<lparr>aSkipped := True\<rparr>" "[]"]
  by (simp add: wheelsOf_def ownerOf_def)

text \<open>
  C9. The sub-query that is fetched for an association (the one handed to
  \<^verbatim>\<open>query.All\<close> or \<^verbatim>\<open>query.First\<close>) has no order clause when the association is
  not sortable or when its \<^verbatim>\<open>OrderBy()\<close> is the empty string, and has the clause
  that \<^verbatim>\<open>OrderBy()\<close> returns as its only order clause otherwise; its SQL is the
  translation of the query with these order clauses.
\<close>

theorem sub_query_order:
  assumes "fetch env model a err s = (e, s')" and "aKind a \<in> {Slice, Array, Struct}"
  shows "\<exists>qu. log s' = log s @ [if aKind a = Struct then FetchFirst qu (model @ [Fld (aField a)]) e
                                   else FetchAll qu (model @ [Fld (aField a)]) e]
          \<and> qu = subQuery env (q s) a (deref (heap s) model) (deref (heap s) (model @ [Fld (aField a)]))
          \<and> orderClauses qu =
              (case aOrderBy a of None \<Rightarrow> [] | Some c \<Rightarrow> if c = [] then [] else [c])
          \<and> RawSQL qu = ToSQL env (qu\<lparr>RawSQL := ([], [])\<rparr>) (deref (heap s) (model @ [Fld (aField a)]))"
  using assms
  by (auto simp: fetch_def subQuery_def Let_def emit_def Q_def Where_def Order_def RawQuery_def
      split: prod.splits option.splits if_splits)

theorem sub_query_order_witness:
  "aKind wheelsOf \<in> {Slice, Array, Struct}
   \<and> aOrderBy wheelsOf = Some ''position asc''
   \<and> (\<exists>qu. log (snd (fetch carEnv [] wheelsOf None carState)) = [FetchAll qu [Fld ''Wheels''] None]
          \<and> orderClauses qu = [''position asc''])
   \<and> aKind (ownerOf\<lparr>aOrderBy := Some []\<rparr>) \<in> {Slice, Array, Struct}
   \<and> (\<exists>qu. log (snd (fetch carEnv [] (ownerOf\<lparr>aOrderBy := Some []\<rparr>) None carState)) =
             [FetchFirst qu [Fld ''Owner''] (Some (ErrWrap ''first'' ErrNoRows))]
          \<and> orderClauses qu = [])"
proof -
  let ?o = "ownerOf\<lparr>aOrderBy := Some []\<rparr>"
  have w: "fetch carEnv [] wheelsOf None carState =
      (None, snd (fetch carEnv [] wheelsOf None carState))"
    by (simp add: fetch_def Let_def wheelsOf_sel carEnv_sel)
  have o: "fetch carEnv [] ?o None carState =
      (Some (ErrWrap ''first'' ErrNoRows), snd (fetch carEnv [] ?o None carState))"
    by (simp add: fetch_def Let_def ownerOf_sel carEnv_sel)
  have kw: "aKind wheelsOf \<in> {Slice, Array, Struct}" by (simp add: wheelsOf_sel)
  have ko: "aKind ?o \<in> {Slice, Array, Struct}" by (simp add: ownerOf_sel)
  from sub_query_order [OF w kw] obtain qw where
    "log (snd (fetch carEnv [] wheelsOf None carState)) =
       log carState @ [if aKind wheelsOf = Struct then FetchFirst qw ([] @ [Fld (aField wheelsOf)]) None
                       else FetchAll qw ([] @ [Fld (aField wheelsOf)]) None]"
    "orderClauses qw = (case aOrderBy wheelsOf of None \<Rightarrow> [] | Some c \<Rightarrow> if c = [] then [] else [c])"
    by blast
  then have 1: "\<exists>qu. log (snd (fetch carEnv [] wheelsOf None carState)) = [FetchAll qu [Fld ''Wheels''] None]
          \<and> orderClauses qu = [''position asc'']"
    by (intro exI[of _ qw]) (simp add: wheelsOf_sel carState_sel)
  from sub_query_order [OF o ko] obtain qo where
    "log (snd (fetch carEnv [] ?o None carState)) =
       log carState @ [if aKind ?o = Struct
          then FetchFirst qo ([] @ [Fld (aField ?o)]) (Some (ErrWrap ''first'' ErrNoRows))
          else FetchAll qo ([] @ [Fld (aField ?o)]) (Some (ErrWrap ''first'' ErrNoRows))]"
    "orderClauses qo = (case aOrderBy ?o of None \<Rightarrow> [] | Some c \<Rightarrow> if c = [] then [] else [c])"
    by blast
  then have 2: "\<exists>qu. log (snd (fetch carEnv [] ?o None carState)) =
             [FetchFirst qu [Fld ''Owner''] (Some (ErrWrap ''first'' ErrNoRows))]
          \<and> orderClauses qu = []"
    by (intro exI[of _ qo]) (simp add: ownerOf_sel carState_sel)
  from 1 2 kw ko wheelsOf_sel(4) show ?thesis by blast
qed

section \<open>The calls that return\<close>

text \<open>
  The loop over the associations is the loop over its first associations followed by the
  loop over the others, and it returns at once on a fatal error of a fetch, whatever the
  nested loader does.
\<close>

lemma assocLoop_steps:
  "assocLoop call env model assos err s =
     (case assocSteps call env model assos err s of
        None \<Rightarrow> None
      | Some (r, e, s') \<Rightarrow> Some (if r then e else None, s'))"
proof (induction assos arbitrary: err s)
  case Nil
  show ?case by simp
next
  case (Cons a assos)
  show ?case
  proof (cases "aSkipped a")
    case True
    with Cons.IH show ?thesis by simp
  next
    case False
    obtain err1 s1 where f: "fetch env model a err s = (err1, s1)"
      by (cases "fetch env model a err s")
    show ?thesis
    proof (cases "fatal err1")
      case True
      with False f show ?thesis by simp
    next
      case nf: False
      show ?thesis
      proof (cases "innerLoop call model (aInner a) err1 s1")
        case None
        with False f nf show ?thesis by simp
      next
        case (Some t)
        obtain r err2 s2 where t: "t = (r, err2, s2)" by (cases t)
        show ?thesis
        proof (cases r)
          case True
          with False f nf Some t show ?thesis by simp
        next
          case rf: False
          with False f nf Some t Cons.IH[of err2 s2] show ?thesis by simp
        qed
      qed
    qed
  qed
qed

lemma assocSteps_append:
  "assocSteps call env model pre err s = Some (False, err0, s0) \<Longrightarrow>
     assocSteps call env model (pre @ rest) err s = assocSteps call env model rest err0 s0"
proof (induction pre arbitrary: err s)
  case Nil
  then show ?case by simp
next
  case (Cons a pre)
  note run = Cons.prems
  show ?case
  proof (cases "aSkipped a")
    case True
    with run Cons.IH[of err s] show ?thesis by simp
  next
    case False
    obtain err1 s1 where f: "fetch env model a err s = (err1, s1)"
      by (cases "fetch env model a err s")
    show ?thesis
    proof (cases "fatal err1")
      case True
      with False f run show ?thesis by simp
    next
      case nf: False
      show ?thesis
      proof (cases "innerLoop call model (aInner a) err1 s1")
        case None
        with False f nf run show ?thesis by simp
      next
        case (Some t)
        obtain r err2 s2 where t: "t = (r, err2, s2)" by (cases t)
        show ?thesis
        proof (cases r)
          case True
          with False f nf Some t run show ?thesis by simp
        next
          case rf: False
          with False f nf Some t run have "assocSteps call env model pre err2 s2 = Some (False, err0, s0)"
            by simp
          from Cons.IH[OF this] False f nf Some t rf show ?thesis by simp
        qed
      qed
    qed
  qed
qed

lemma assocLoop_fatal:
  assumes "assocSteps call env model pre err s = Some (False, err0, s0)"
    and "\<not> aSkipped a" and "fetch env model a err0 s0 = (err1, s1)" and "fatal err1"
  shows "assocLoop call env model (pre @ a # rest) err s = Some (err1, s1)"
proof -
  have "assocSteps call env model (pre @ a # rest) err s = assocSteps call env model (a # rest) err0 s0"
    using assms(1) by (rule assocSteps_append)
  also have "\<dots> = Some (True, err1, s1)" using assms(2,3,4) by simp
  finally show ?thesis by (simp add: assocLoop_steps)
qed

text \<open>
  The loop over the elements and the loop over the inner associations return when the
  nested loader returns on each element, or on each pair, from the state in which the loop
  reaches it.
\<close>

lemma elemLoop_returns:
  "\<forall>j s1. i \<le> j \<and> j < n \<and> elemLoop call model i j None s = Some (None, s1)
       \<longrightarrow> call (model @ [Idx j]) s1 \<noteq> None \<Longrightarrow>
   elemLoop call model i n None s \<noteq> None"
proof (induction "n - i" arbitrary: i s)
  case 0
  then have "\<not> i < n" by simp
  then show ?case by (subst elemLoop.simps) simp
next
  case (Suc m)
  then have lt: "i < n" by simp
  have "elemLoop call model i i None s = Some (None, s)" by (subst elemLoop.simps) simp
  with Suc.prems lt have "call (model @ [Idx i]) s \<noteq> None" by blast
  then obtain e s1 where c: "call (model @ [Idx i]) s = Some (e, s1)" by (cases "call (model @ [Idx i]) s") auto
  show ?case
  proof (cases "e = None")
    case False
    with lt c show ?thesis by (subst elemLoop.simps) simp
  next
    case True
    have m: "m = n - Suc i" using Suc.hyps(2) by simp
    have step: "\<And>j. i < j \<Longrightarrow> elemLoop call model i j None s = elemLoop call model (Suc i) j None s1"
      using c True by (subst elemLoop.simps) simp
    have "\<forall>j s2. Suc i \<le> j \<and> j < n \<and> elemLoop call model (Suc i) j None s1 = Some (None, s2)
       \<longrightarrow> call (model @ [Idx j]) s2 \<noteq> None"
    proof (intro allI impI)
      fix j s2
      assume a: "Suc i \<le> j \<and> j < n \<and> elemLoop call model (Suc i) j None s1 = Some (None, s2)"
      then have "i < j" by simp
      from step[OF this] a have "i \<le> j \<and> j < n \<and> elemLoop call model i j None s = Some (None, s2)" by simp
      with Suc.prems show "call (model @ [Idx j]) s2 \<noteq> None" by blast
    qed
    from Suc.hyps(1)[OF m this] have "elemLoop call model (Suc i) n None s1 \<noteq> None" .
    with lt c True show ?thesis by (subst elemLoop.simps) simp
  qed
qed

lemma innerLoop_returns:
  "\<forall>k e2 s2. k < length inners \<and> innerLoop call model (take k inners) err s = Some (False, e2, s2)
       \<longrightarrow> call (model @ [Fld (Name (inners ! k))])
             (s2\<lparr>q := (q s2)\<lparr>eagerFields := [Fields (inners ! k)]\<rparr>\<rparr>) \<noteq> None \<Longrightarrow>
   innerLoop call model inners err s \<noteq> None"
proof (induction inners arbitrary: err s)
  case Nil
  show ?case by simp
next
  case (Cons inner rest)
  note ret = Cons.prems
  show ?case
  proof (cases "deref (heap s) model")
    case (VStruct fs)
    let ?s1 = "s\<lparr>q := (q s)\<lparr>eagerFields := [Fields inner]\<rparr>\<rparr>"
    show ?thesis
    proof (cases "map_of fs (Name inner)")
      case None
      with VStruct show ?thesis by (simp add: Let_def)
    next
      case (Some x)
      have "0 < length (inner # rest) \<and> innerLoop call model (take 0 (inner # rest)) err s = Some (False, err, s)"
        by simp
      with ret have "call (model @ [Fld (Name ((inner # rest) ! 0))])
             (s\<lparr>q := (q s)\<lparr>eagerFields := [Fields ((inner # rest) ! 0)]\<rparr>\<rparr>) \<noteq> None" by blast
      then obtain e1 s2 where c: "call (model @ [Fld (Name inner)]) ?s1 = Some (e1, s2)"
        by (cases "call (model @ [Fld (Name inner)]) ?s1") auto
      show ?thesis
      proof (cases "e1 = None")
        case False
        with VStruct Some c show ?thesis by (simp add: Let_def)
      next
        case True
        have step: "\<And>k. innerLoop call model (take (Suc k) (inner # rest)) err s
                       = innerLoop call model (take k rest) e1 s2"
          using VStruct Some c True by (simp add: Let_def)
        have "\<forall>k e2 s3. k < length rest \<and> innerLoop call model (take k rest) e1 s2 = Some (False, e2, s3)
           \<longrightarrow> call (model @ [Fld (Name (rest ! k))])
                 (s3\<lparr>q := (q s3)\<lparr>eagerFields := [Fields (rest ! k)]\<rparr>\<rparr>) \<noteq> None"
        proof (intro allI impI)
          fix k e2 and s3 :: state
          assume a: "k < length rest \<and> innerLoop call model (take k rest) e1 s2 = Some (False, e2, s3)"
          then have "Suc k < length (inner # rest)
             \<and> innerLoop call model (take (Suc k) (inner # rest)) err s = Some (False, e2, s3)"
            using step[of k] by simp
          with ret have "call (model @ [Fld (Name ((inner # rest) ! Suc k))])
                 (s3\<lparr>q := (q s3)\<lparr>eagerFields := [Fields ((inner # rest) ! Suc k)]\<rparr>\<rparr>) \<noteq> None"
            by blast
          then show "call (model @ [Fld (Name (rest ! k))])
                 (s3\<lparr>q := (q s3)\<lparr>eagerFields := [Fields (rest ! k)]\<rparr>\<rparr>) \<noteq> None" by simp
        qed
        from Cons.IH[OF this] have "innerLoop call model rest e1 s2 \<noteq> None" .
        with VStruct Some c True show ?thesis by (simp add: Let_def)
      qed
    qed
  qed simp_all
qed

text \<open>
  The depth only bounds the nesting of the calls: a call that returns at some depth returns
  the same error and the same state at every greater depth.
\<close>

lemma extendsD: "extends call call' \<Longrightarrow> call p s = Some r \<Longrightarrow> call' p s = Some r"
  unfolding extends_def by blast

lemma innerLoop_mono:
  "extends call call' \<Longrightarrow> innerLoop call model inners err s = Some r \<Longrightarrow>
     innerLoop call' model inners err s = Some r"
proof (induction inners arbitrary: err s)
  case Nil
  then show ?case by simp
next
  case (Cons inner rest)
  note ex = Cons.prems(1) and run = Cons.prems(2)
  show ?case
  proof (cases "deref (heap s) model")
    case (VStruct fs)
    let ?s1 = "s\<lparr>q := (q s)\<lparr>eagerFields := [Fields inner]\<rparr>\<rparr>"
    show ?thesis
    proof (cases "map_of fs (Name inner)")
      case None
      with VStruct run show ?thesis by (simp add: Let_def)
    next
      case (Some x)
      with VStruct run obtain e1 s2 where c: "call (model @ [Fld (Name inner)]) ?s1 = Some (e1, s2)"
        by (auto simp: Let_def split: option.splits)
      from extendsD[OF ex c] have c': "call' (model @ [Fld (Name inner)]) ?s1 = Some (e1, s2)" .
      show ?thesis
      proof (cases "e1 = None")
        case False
        with VStruct Some c c' run show ?thesis by (simp add: Let_def)
      next
        case True
        with VStruct Some c run have "innerLoop call model rest e1 s2 = Some r" by (simp add: Let_def)
        from Cons.IH[OF ex this] VStruct Some c' True show ?thesis by (simp add: Let_def)
      qed
    qed
  qed (use run in auto)
qed

lemma assocLoop_mono:
  "extends call call' \<Longrightarrow> assocLoop call env model assos err s = Some (e', s') \<Longrightarrow>
     assocLoop call' env model assos err s = Some (e', s')"
proof (induction assos arbitrary: err s)
  case Nil
  then show ?case by simp
next
  case (Cons a assos)
  note ex = Cons.prems(1) and run = Cons.prems(2)
  show ?case
  proof (cases "aSkipped a")
    case True
    with run Cons.IH[OF ex] show ?thesis by simp
  next
    case False
    obtain err1 s1 where f: "fetch env model a err s = (err1, s1)" by (cases "fetch env model a err s")
    show ?thesis
    proof (cases "fatal err1")
      case True
      with False f run show ?thesis by simp
    next
      case nf: False
      from False f nf run obtain ret err2 s2 where
        i: "innerLoop call model (aInner a) err1 s1 = Some (ret, err2, s2)"
        by (cases "innerLoop call model (aInner a) err1 s1") auto
      from innerLoop_mono[OF ex i] have i': "innerLoop call' model (aInner a) err1 s1 = Some (ret, err2, s2)" .
      show ?thesis
      proof (cases ret)
        case True
        with False f nf i i' run show ?thesis by simp
      next
        case rf: False
        with False f nf i run have "assocLoop call env model assos err2 s2 = Some (e', s')" by simp
        from Cons.IH[OF ex this] False f nf i' rf show ?thesis by simp
      qed
    qed
  qed
qed

lemma elemLoop_mono:
  "extends call call' \<Longrightarrow> elemLoop call model i n err s = Some (e', s') \<Longrightarrow>
     elemLoop call' model i n err s = Some (e', s')"
proof (induction "n - i" arbitrary: i err s)
  case 0
  then have "\<not> i < n" by simp
  with "0.prems"(2) show ?case by (simp add: elemLoop.simps)
next
  case (Suc m)
  then have lt: "i < n" by simp
  note ex = Suc.prems(1) and run = Suc.prems(2)
  from run lt obtain e s1 where c: "call (model @ [Idx i]) s = Some (e, s1)"
    by (cases "call (model @ [Idx i]) s") (auto simp: elemLoop.simps[of call model i])
  from extendsD[OF ex c] have c': "call' (model @ [Idx i]) s = Some (e, s1)" .
  show ?case
  proof (cases "e = None")
    case False
    with lt c c' run show ?thesis by (simp add: elemLoop.simps[of _ model i])
  next
    case True
    have m: "m = n - Suc i" using Suc.hyps(2) by simp
    from run lt c True have "elemLoop call model (Suc i) n e s1 = Some (e', s')"
      by (simp add: elemLoop.simps[of call model i])
    from Suc.hyps(1)[OF m ex this] lt c' True show ?thesis
      by (simp add: elemLoop.simps[of call' model i])
  qed
qed

lemma body_mono:
  "extends call call' \<Longrightarrow> eagerLoadDefault_body call env model s = Some (e', s') \<Longrightarrow>
     eagerLoadDefault_body call' env model s = Some (e', s')"
  unfolding eagerLoadDefault_body_def Let_def
  by (auto split: if_splits sum.splits intro: elemLoop_mono assocLoop_mono)

lemma eagerLoadDefault_Suc: "extends (eagerLoadDefault d env) (eagerLoadDefault (Suc d) env)"
proof (induction d)
  case 0
  show ?case by (simp add: extends_def)
next
  case (Suc d)
  show ?case unfolding extends_def
  proof (intro allI impI)
    fix p s r
    assume run: "eagerLoadDefault (Suc d) env p s = Some r"
    let ?s0 = "emit (Enter p (eagerFields (q s))) s"
    from run obtain e s1 where
      b: "eagerLoadDefault_body (eagerLoadDefault d env) env p ?s0 = Some (e, s1)"
      and r: "r = (e, emit (Exit p e) s1)"
      by (cases "eagerLoadDefault_body (eagerLoadDefault d env) env p ?s0") auto
    from body_mono[OF Suc.IH b]
    have "eagerLoadDefault_body (eagerLoadDefault (Suc d) env) env p ?s0 = Some (e, s1)" .
    then have "eagerLoadDefault (Suc (Suc d)) env p s = Some (e, emit (Exit p e) s1)"
      by (simp del: eagerLoadDefault.simps(2) add: eagerLoadDefault.simps(2)[of "Suc d"])
    with r show "eagerLoadDefault (Suc (Suc d)) env p s = Some r" by simp
  qed
qed

lemma eagerLoadDefault_more_depth:
  "eagerLoadDefault d env p s = Some r \<Longrightarrow> d \<le> d' \<Longrightarrow> eagerLoadDefault d' env p s = Some r"
proof (induction d' )
  case 0
  then show ?case by simp
next
  case (Suc d')
  show ?case
  proof (cases "d = Suc d'")
    case True
    with Suc.prems show ?thesis by simp
  next
    case False
    with Suc.prems have "d \<le> d'" by simp
    from Suc.IH[OF Suc.prems(1) this] have "eagerLoadDefault d' env p s = Some r" .
    with eagerLoadDefault_Suc[of d' env] show ?thesis by (rule extendsD)
  qed
qed

section \<open>Loading a collection\<close>

lemma plainEnv_sel:
  "AssociationsForStruct plainEnv = (\<lambda>v fields. if Kind v = Struct then Inr [] else Inl (ErrOther ''not a struct''))"
  by (simp add: plainEnv_def)

lemma rowsState_sel:
  "log rowsState = []" "eagerFields (q rowsState) = []"
  "heap rowsState = VSlice [VStruct [], VStruct [], VInt 0, VStruct []]"
  by (simp_all add: rowsState_def Q_def)

lemma rows_run: "eagerLoadDefault 2 plainEnv [] rowsState =
    Some (Some (ErrOther ''not a struct''), rowsAfter)"
  by (simp add: numeral_2_eq_2 eagerLoadDefault_body_def elemLoop.simps emit_def deref_def Let_def
      plainEnv_sel rowsState_def rowsAfter_def Q_def)

lemma rows_elems_return:
  "\<forall>i s1. i < Len (deref (heap rowsState) [])
           \<and> elemLoop (eagerLoadDefault 1 plainEnv) [] 0 i None
               (emit (Enter [] (eagerFields (q rowsState))) rowsState) = Some (None, s1)
         \<longrightarrow> eagerLoadDefault 1 plainEnv ([] @ [Idx i]) s1 \<noteq> None"
proof (intro allI impI, elim conjE)
  fix i s1
  assume i: "i < Len (deref (heap rowsState) [])"
    and r: "elemLoop (eagerLoadDefault 1 plainEnv) [] 0 i None
               (emit (Enter [] (eagerFields (q rowsState))) rowsState) = Some (None, s1)"
  from i have "i < 4" by (simp add: rowsState_sel deref_def)
  then have "i = 0 \<or> i = 1 \<or> i = 2 \<or> i = 3" by arith
  then show "eagerLoadDefault 1 plainEnv ([] @ [Idx i]) s1 \<noteq> None"
    using r
    by (elim disjE)
       (auto simp add: eval_nat_numeral eagerLoadDefault_body_def elemLoop.simps emit_def deref_def
          Let_def plainEnv_sel rowsState_def Q_def)
qed

text \<open>
  C2. Let the model point to a slice or an array of \<open>N\<close> elements, and let the call of
  \<^verbatim>\<open>eagerLoadDefault\<close> on each element return, within the depth \<open>d\<close>, from the
  state in which the loop reaches that element (the state \<open>s1\<close> in which the loop over
  the elements before it ends without an error). Then the call on the collection returns,
  at every depth above \<open>d\<close>, one error \<open>err\<close> and one state \<open>s'\<close>. It has called
  itself on the elements \<open>0, \<dots>, k - 1\<close> in this order, once each, and on nothing else at
  that depth. If it returns no error then \<open>k = N\<close> and every one of these calls returned
  no error. If it returns an error then that error is the one returned by the call on the
  element \<open>k - 1\<close>, the calls before it returned no error, and the elements from \<open>k\<close> on
  were not resolved.
\<close>

theorem eagerLoadDefault_on_collection:
  assumes "Kind (deref (heap s) model) = Slice \<or> Kind (deref (heap s) model) = Array"
    and "\<forall>i s1. i < Len (deref (heap s) model)
           \<and> elemLoop (eagerLoadDefault d env) model 0 i None
               (emit (Enter model (eagerFields (q s))) s) = Some (None, s1)
         \<longrightarrow> eagerLoadDefault d env (model @ [Idx i]) s1 \<noteq> None"
  shows "\<exists>err s' k evs. (\<forall>d'. d < d' \<longrightarrow> eagerLoadDefault d' env model s = Some (err, s'))
     \<and> k \<le> Len (deref (heap s) model)
     \<and> log s' = log s @ Enter model (eagerFields (q s)) # evs @ [Exit model err]
     \<and> map fst (entered (Suc (length model)) evs) = map (\<lambda>j. model @ [Idx j]) [0..<k]
     \<and> returned (Suc (length model)) evs =
         map (\<lambda>j. (model @ [Idx j], if Suc j = k then err else None)) [0..<k]
     \<and> (err = None \<longrightarrow> k = Len (deref (heap s) model))
     \<and> (err \<noteq> None \<longrightarrow> 0 < k)"
proof -
  let ?s0 = "emit (Enter model (eagerFields (q s))) s"
  let ?n = "Len (deref (heap s) model)"
  let ?call = "eagerLoadDefault d env"
  have h0: "heap ?s0 = heap s" and l0: "log ?s0 = log s @ [Enter model (eagerFields (q s))]"
    by (simp_all add: emit_def)
  from assms(2) have "\<forall>j s1. 0 \<le> j \<and> j < ?n \<and> elemLoop ?call model 0 j None ?s0 = Some (None, s1)
       \<longrightarrow> ?call (model @ [Idx j]) s1 \<noteq> None" by simp
  then have "elemLoop ?call model 0 ?n None ?s0 \<noteq> None" by (rule elemLoop_returns)
  then obtain err s1 where l: "elemLoop ?call model 0 ?n None ?s0 = Some (err, s1)"
    by (cases "elemLoop ?call model 0 ?n None ?s0") auto
  from l assms(1) have b: "eagerLoadDefault_body ?call env model ?s0 = Some (err, s1)"
    by (simp add: eagerLoadDefault_body_def Let_def h0)
  then have run: "eagerLoadDefault (Suc d) env model s = Some (err, emit (Exit model err) s1)"
    by simp
  have every: "\<forall>d'. d < d' \<longrightarrow> eagerLoadDefault d' env model s = Some (err, emit (Exit model err) s1)"
  proof (intro allI impI)
    fix d' assume "d < d'"
    then have "Suc d \<le> d'" by simp
    with run show "eagerLoadDefault d' env model s = Some (err, emit (Exit model err) s1)"
      by (rule eagerLoadDefault_more_depth)
  qed
  from elemLoop_calls[OF eagerLoadDefault_bracketed l]
  obtain k evs where k: "0 \<le> k \<and> (0 < ?n \<longrightarrow> k \<le> ?n) \<and> log s1 = log ?s0 @ evs
    \<and> below (length model) evs
    \<and> map fst (entered (Suc (length model)) evs) = map (\<lambda>j. model @ [Idx j]) [0..<k]
    \<and> returned (Suc (length model)) evs =
       map (\<lambda>j. (model @ [Idx j], if Suc j = k then err else None)) [0..<k]
    \<and> (0 < ?n \<longrightarrow> (err = None \<longrightarrow> k = ?n) \<and> (err \<noteq> None \<longrightarrow> 0 < k))
    \<and> (\<not> 0 < ?n \<longrightarrow> k = 0 \<and> err = None)"
    by (elim exE) (rule that)
  have f1: "k \<le> ?n" using k by (cases "0 < ?n") simp_all
  have f2: "log (emit (Exit model err) s1)
      = log s @ Enter model (eagerFields (q s)) # evs @ [Exit model err]"
    using k l0 by (simp add: emit_def)
  have f3: "map fst (entered (Suc (length model)) evs) = map (\<lambda>j. model @ [Idx j]) [0..<k]"
    and f4: "returned (Suc (length model)) evs =
       map (\<lambda>j. (model @ [Idx j], if Suc j = k then err else None)) [0..<k]"
    using k by simp_all
  have f5: "err = None \<longrightarrow> k = ?n" using k by (cases "0 < ?n") simp_all
  have f6: "err \<noteq> None \<longrightarrow> 0 < k" using k by (cases "0 < ?n") simp_all
  show ?thesis
    by (intro exI[of _ err] exI[of _ "emit (Exit model err) s1"] exI[of _ k] exI[of _ evs]
        conjI every f1 f2 f3 f4 f5 f6)
qed

theorem eagerLoadDefault_on_collection_witness:
  "Len (deref (heap rowsState) []) = 4
   \<and> eagerLoadDefault 2 plainEnv [] rowsState = Some (Some (ErrOther ''not a struct''), rowsAfter)
   \<and> (\<exists>k evs. k \<le> 4
        \<and> log rowsAfter = Enter [] [] # evs @ [Exit [] (Some (ErrOther ''not a struct''))]
        \<and> map fst (entered 1 evs) = map (\<lambda>j. [Idx j]) [0..<k]
        \<and> returned 1 evs =
             map (\<lambda>j. ([Idx j], if Suc j = k then Some (ErrOther ''not a struct'') else None)) [0..<k]
        \<and> 0 < k)"
proof -
  let ?E = "Some (ErrOther ''not a struct'')"
  have kind: "Kind (deref (heap rowsState) []) = Slice \<or> Kind (deref (heap rowsState) []) = Array"
    by (simp add: rowsState_sel deref_def)
  have len: "Len (deref (heap rowsState) []) = 4"
    by (simp add: rowsState_sel deref_def)
  from eagerLoadDefault_on_collection [OF kind rows_elems_return]
  obtain err s' k evs where
    k: "(\<forall>d'. 1 < d' \<longrightarrow> eagerLoadDefault d' plainEnv [] rowsState = Some (err, s'))
     \<and> k \<le> Len (deref (heap rowsState) [])
     \<and> log s' = log rowsState @ Enter [] (eagerFields (q rowsState)) # evs @ [Exit [] err]
     \<and> map fst (entered (Suc (length ([] :: ptr))) evs) = map (\<lambda>j. [] @ [Idx j]) [0..<k]
     \<and> returned (Suc (length ([] :: ptr))) evs =
         map (\<lambda>j. ([] @ [Idx j], if Suc j = k then err else None)) [0..<k]
     \<and> (err = None \<longrightarrow> k = Len (deref (heap rowsState) []))
     \<and> (err \<noteq> None \<longrightarrow> 0 < k)"
    by (elim exE) (rule that)
  from k have every: "\<forall>d'. 1 < d' \<longrightarrow> eagerLoadDefault d' plainEnv [] rowsState = Some (err, s')"
    by (rule conjunct1)
  have two: "(1::nat) < 2" by simp
  from every[rule_format, OF two]
  have "eagerLoadDefault 2 plainEnv [] rowsState = Some (err, s')" .
  with rows_run have e: "err = ?E" and s': "s' = rowsAfter" by simp_all
  have g1: "k \<le> 4" using k len by simp
  have g2: "log rowsAfter = Enter [] [] # evs @ [Exit [] ?E]"
    using k e s' by (simp add: rowsState_sel(1,2))
  have g3: "map fst (entered 1 evs) = map (\<lambda>j. [Idx j]) [0..<k]" using k by simp
  have g4: "returned 1 evs = map (\<lambda>j. ([Idx j], if Suc j = k then ?E else None)) [0..<k]"
    using k e by simp
  have g5: "0 < k" using k e by simp
  show ?thesis
    by (intro conjI exI[of _ k] exI[of _ evs] len rows_run g1 g2 g3 g4 g5)
qed

section \<open>Inner associations\<close>

lemma hasMany_sel:
  "aField (hasMany f inner) = f" "aKind (hasMany f inner) = Slice" "aSkipped (hasMany f inner) = False"
  "aInner (hasMany f inner) = inner"
  by (simp_all add: hasMany_def)

lemma belongsTo_sel:
  "aField (belongsTo f inner) = f" "aKind (belongsTo f inner) = Struct" "aSkipped (belongsTo f inner) = False"
  "aInner (belongsTo f inner) = inner"
  by (simp_all add: belongsTo_def)

lemma libEnv_sel:
  "AssociationsForStruct libEnv = (\<lambda>v fields.
          if fields = [''Books.Publisher.Address'']
          then Inr [hasMany ''Books'' [\<lparr>Name = ''Books'', Fields = ''Publisher.Address''\<rparr>]]
          else if fields = [''Publisher.Address'']
          then Inr [belongsTo ''Publisher'' [\<lparr>Name = ''Publisher'', Fields = ''Address''\<rparr>]]
          else if fields = [''Address''] then Inr [belongsTo ''Address'' []]
          else Inr [])"
  "All libEnv = (\<lambda>qu dest. (None, VSlice [book]))"
  "First libEnv = (\<lambda>qu dest. (None, publisher))"
  by (simp_all add: libEnv_def)

lemmas run_rules = eagerLoadDefault_body_def elemLoop.simps emit_def deref_def Let_def fetch_def
  hasMany_sel belongsTo_sel libEnv_sel

lemma returns_with: "map_option fst r = Some e \<Longrightarrow> \<exists>s'. r = Some (e, s')"
  by (cases r) auto

lemma lib_books_run:
  "map_option fst (assocLoop (eagerLoadDefault 3 libEnv) libEnv []
       [hasMany ''Books'' [\<lparr>Name = ''Books'', Fields = ''Publisher.Address''\<rparr>]] None libState) = Some None"
  by (simp add: eval_nat_numeral run_rules libState_def Q_def author_def book_def publisher_def)

lemma lib_books_fetch:
  "fst (fetch libEnv [] (hasMany ''Books'' [\<lparr>Name = ''Books'', Fields = ''Publisher.Address''\<rparr>])
       None libState) = None"
  by (simp add: run_rules)

lemma lib_books_inner_returns:
  "\<forall>k e2 s2. k < length (aInner (hasMany ''Books'' [\<lparr>Name = ''Books'', Fields = ''Publisher.Address''\<rparr>]))
      \<and> innerLoop (eagerLoadDefault 3 libEnv) []
          (take k (aInner (hasMany ''Books'' [\<lparr>Name = ''Books'', Fields = ''Publisher.Address''\<rparr>])))
          (fst (fetch libEnv [] (hasMany ''Books'' [\<lparr>Name = ''Books'', Fields = ''Publisher.Address''\<rparr>])
             None libState))
          (snd (fetch libEnv [] (hasMany ''Books'' [\<lparr>Name = ''Books'', Fields = ''Publisher.Address''\<rparr>])
             None libState)) = Some (False, e2, s2)
    \<longrightarrow> eagerLoadDefault 3 libEnv
          ([] @ [Fld (Name (aInner (hasMany ''Books''
                     [\<lparr>Name = ''Books'', Fields = ''Publisher.Address''\<rparr>]) ! k))])
          (s2\<lparr>q := (q s2)\<lparr>eagerFields := [Fields (aInner (hasMany ''Books''
                     [\<lparr>Name = ''Books'', Fields = ''Publisher.Address''\<rparr>]) ! k)]\<rparr>\<rparr>) \<noteq> None"
proof (intro allI impI, elim conjE)
  fix k e2 and s2 :: state
  let ?a = "hasMany ''Books'' [\<lparr>Name = ''Books'', Fields = ''Publisher.Address''\<rparr>]"
  let ?f = "fetch libEnv [] ?a None libState"
  assume k: "k < length (aInner ?a)"
    and r: "innerLoop (eagerLoadDefault 3 libEnv) [] (take k (aInner ?a)) (fst ?f) (snd ?f)
              = Some (False, e2, s2)"
  from k have k0: "k = 0" by (simp add: hasMany_sel)
  from r have s2: "s2 = snd ?f" unfolding k0 by simp
  show "eagerLoadDefault 3 libEnv ([] @ [Fld (Name (aInner ?a ! k))])
          (s2\<lparr>q := (q s2)\<lparr>eagerFields := [Fields (aInner ?a ! k)]\<rparr>\<rparr>) \<noteq> None"
    unfolding k0 s2
    by (simp add: eval_nat_numeral run_rules libState_def Q_def author_def book_def publisher_def)
qed

text \<open>
  C5. Let the fetch of an association that is not skipped return without a fatal error
  (state \<open>s1\<close>), and let the call of \<^verbatim>\<open>eagerLoadDefault\<close> for each of its pairs
  return from the state in which the loop reaches that pair (the state \<open>s2\<close> in which the
  loop over the pairs before it ends, with the field names of the pair set). Then the loop
  over its inner associations returns. It has called \<^verbatim>\<open>eagerLoadDefault\<close> once for
  each pair, in the order of the list: the call for the pair \<open>(Name, Fields)\<close> is on the
  address of the field \<open>Name\<close> of the owning record (the pointer of the model extended by
  that field, not a pointer into the destination of the fetch) and starts with \<open>[Fields]\<close>
  as the field names of the query. The pairs are processed up to the first one whose call
  returns an error (or panics), and the loop over the associations then returns that error;
  when all of them are processed the loop over the associations goes on with the rest.
\<close>

theorem inner_associations_on_owner:
  assumes "\<not> aSkipped a"
    and "fetch env model a err s = (err1, s1)"
    and "\<not> fatal err1"
    and "\<forall>k e2 s2. k < length (aInner a)
           \<and> innerLoop (eagerLoadDefault d env) model (take k (aInner a)) err1 s1 = Some (False, e2, s2)
         \<longrightarrow> eagerLoadDefault d env (model @ [Fld (Name (aInner a ! k))])
               (s2\<lparr>q := (q s2)\<lparr>eagerFields := [Fields (aInner a ! k)]\<rparr>\<rparr>) \<noteq> None"
  shows "\<exists>k evs ret err2 s2.
      innerLoop (eagerLoadDefault d env) model (aInner a) err1 s1 = Some (ret, err2, s2)
    \<and> k \<le> length (aInner a)
    \<and> log s2 = log s1 @ evs
    \<and> entered (Suc (length model)) evs =
         map (\<lambda>i. (model @ [Fld (Name i)], [Fields i])) (take k (aInner a))
    \<and> (ret \<longrightarrow> err2 \<noteq> None
          \<and> assocLoop (eagerLoadDefault d env) env model (a # rest) err s = Some (err2, s2))
    \<and> (\<not> ret \<longrightarrow> k = length (aInner a)
          \<and> assocLoop (eagerLoadDefault d env) env model (a # rest) err s
              = assocLoop (eagerLoadDefault d env) env model rest err2 s2)"
proof -
  let ?call = "eagerLoadDefault d env"
  from assms(4) have "innerLoop ?call model (aInner a) err1 s1 \<noteq> None" by (rule innerLoop_returns)
  then obtain ret err2 s2 where i: "innerLoop ?call model (aInner a) err1 s1 = Some (ret, err2, s2)"
    by (cases "innerLoop ?call model (aInner a) err1 s1") auto
  from assms(1,2,3) i have c: "assocLoop ?call env model (a # rest) err s =
      (if ret then Some (err2, s2) else assocLoop ?call env model rest err2 s2)"
    by simp
  from innerLoop_calls[OF eagerLoadDefault_bracketed i]
  obtain k evs where k: "k \<le> length (aInner a) \<and> log s2 = log s1 @ evs \<and> below (length model) evs
       \<and> entered (Suc (length model)) evs =
           map (\<lambda>i. (model @ [Fld (Name i)], [Fields i])) (take k (aInner a))
       \<and> (\<not> ret \<longrightarrow> k = length (aInner a)) \<and> (ret \<longrightarrow> err2 \<noteq> None)"
    by (elim exE) (rule that)
  have f1: "k \<le> length (aInner a)" and f2: "log s2 = log s1 @ evs"
    and f3: "entered (Suc (length model)) evs =
           map (\<lambda>i. (model @ [Fld (Name i)], [Fields i])) (take k (aInner a))"
    using k by simp_all
  have f4: "ret \<longrightarrow> err2 \<noteq> None \<and> assocLoop ?call env model (a # rest) err s = Some (err2, s2)"
    using k c by simp
  have f5: "\<not> ret \<longrightarrow> k = length (aInner a)
          \<and> assocLoop ?call env model (a # rest) err s = assocLoop ?call env model rest err2 s2"
    using k c by simp
  show ?thesis
    by (intro exI[of _ k] exI[of _ evs] exI[of _ ret] exI[of _ err2] exI[of _ s2] conjI i f1 f2 f3 f4 f5)
qed

theorem inner_associations_on_owner_witness:
  "\<not> aSkipped (hasMany ''Books'' [\<lparr>Name = ''Books'', Fields = ''Publisher.Address''\<rparr>])
   \<and> \<not> fatal (fst (fetch libEnv [] (hasMany ''Books'' [\<lparr>Name = ''Books'', Fields = ''Publisher.Address''\<rparr>])
       None libState))
   \<and> (\<exists>evs err2 s2.
         innerLoop (eagerLoadDefault 3 libEnv) [] [\<lparr>Name = ''Books'', Fields = ''Publisher.Address''\<rparr>]
           (fst (fetch libEnv [] (hasMany ''Books'' [\<lparr>Name = ''Books'', Fields = ''Publisher.Address''\<rparr>])
              None libState))
           (snd (fetch libEnv [] (hasMany ''Books'' [\<lparr>Name = ''Books'', Fields = ''Publisher.Address''\<rparr>])
              None libState)) = Some (False, err2, s2)
       \<and> log s2 = log (snd (fetch libEnv []
             (hasMany ''Books'' [\<lparr>Name = ''Books'', Fields = ''Publisher.Address''\<rparr>]) None libState)) @ evs
       \<and> entered 1 evs = [([Fld ''Books''], [''Publisher.Address''])]
       \<and> assocLoop (eagerLoadDefault 3 libEnv) libEnv []
           [hasMany ''Books'' [\<lparr>Name = ''Books'', Fields = ''Publisher.Address''\<rparr>]] None libState
           = Some (None, s2))"
proof -
  let ?a = "hasMany ''Books'' [\<lparr>Name = ''Books'', Fields = ''Publisher.Address''\<rparr>]"
  let ?f = "fetch libEnv [] ?a None libState"
  let ?call = "eagerLoadDefault 3 libEnv"
  have ns: "\<not> aSkipped ?a" by (simp add: hasMany_sel)
  have f: "?f = (fst ?f, snd ?f)" by simp
  have nf: "\<not> fatal (fst ?f)" by (simp only: lib_books_fetch fatal.simps) simp
  from inner_associations_on_owner [OF ns f nf lib_books_inner_returns, of "[]"]
  obtain k evs ret err2 s2 where
    k: "innerLoop ?call [] (aInner ?a) (fst ?f) (snd ?f) = Some (ret, err2, s2)
    \<and> k \<le> length (aInner ?a)
    \<and> log s2 = log (snd ?f) @ evs
    \<and> entered (Suc (length ([] :: ptr))) evs =
         map (\<lambda>i. ([] @ [Fld (Name i)], [Fields i])) (take k (aInner ?a))
    \<and> (ret \<longrightarrow> err2 \<noteq> None \<and> assocLoop ?call libEnv [] [?a] None libState = Some (err2, s2))
    \<and> (\<not> ret \<longrightarrow> k = length (aInner ?a)
          \<and> assocLoop ?call libEnv [] [?a] None libState = assocLoop ?call libEnv [] [] err2 s2)"
    by (elim exE) (rule that)
  have nr: "\<not> ret"
  proof
    assume ret
    with k have "err2 \<noteq> None" and "assocLoop ?call libEnv [] [?a] None libState = Some (err2, s2)"
      by simp_all
    with lib_books_run show False by simp
  qed
  with k have k1: "k = 1" by (simp add: hasMany_sel)
  have g0: "innerLoop ?call [] [\<lparr>Name = ''Books'', Fields = ''Publisher.Address''\<rparr>] (fst ?f) (snd ?f)
      = Some (False, err2, s2)" using k nr by (simp add: hasMany_sel)
  have g1: "log s2 = log (snd ?f) @ evs" using k by simp
  have g2: "entered 1 evs = [([Fld ''Books''], [''Publisher.Address''])]"
    using k k1 by (simp add: hasMany_sel)
  have g3: "assocLoop ?call libEnv [] [?a] None libState = Some (None, s2)"
    using k nr by simp
  show ?thesis
    by (intro conjI ns nf exI[of _ evs] exI[of _ err2] exI[of _ s2] g0 g1 g2 g3)
qed

section \<open>The no-rows error\<close>

lemma noRowsEnv_sel:
  "All noRowsEnv = (\<lambda>qu dest. (Some ErrNoRows, dest))"
  "First noRowsEnv = (\<lambda>qu dest. (Some (ErrWrap ''first'' ErrNoRows), dest))"
  "AssociationsForStruct noRowsEnv = (\<lambda>v fields. if Kind v = Struct then Inr [wheelsOf, ownerOf]
                    else Inl (ErrOther ''not a struct''))"
  by (simp_all add: noRowsEnv_def carEnv_def)

lemma fetched_simps [simp]:
  "fetched [] = []"
  "fetched (evs @ evs') = fetched evs @ fetched evs'"
  "fetched (ev # evs) = fetchedEv ev @ fetched evs"
  by (simp_all add: fetched_def)

text \<open>
  The test after the fetch does not look at the kind of the association: on the car whose
  collection \<open>Wheels\<close> is fetched with the no-rows error, the load goes on to the fetch
  of \<open>Owner\<close> and returns no error.
\<close>

theorem no_rows_on_fetch_all_counterexample:
  "aKind wheelsOf = Slice
   \<and> fst (fetch noRowsEnv [] wheelsOf None carState) = Some ErrNoRows
   \<and> map_option fst (eagerLoadDefault 1 noRowsEnv [] carState) = Some None
   \<and> map_option (fetched \<circ> log \<circ> snd) (eagerLoadDefault 1 noRowsEnv [] carState) =
        Some [([Fld ''Wheels''], Some ErrNoRows),
              ([Fld ''Owner''], Some (ErrWrap ''first'' ErrNoRows))]"
  by (simp add: eagerLoadDefault_body_def emit_def deref_def Let_def fetch_def
      wheelsOf_sel ownerOf_sel noRowsEnv_sel carState_def car_def Q_def)

text \<open>
  C1, as amended. An error whose cause is \<^verbatim>\<open>sql.ErrNoRows\<close> is not fatal, whichever
  of \<^verbatim>\<open>query.First\<close> and \<^verbatim>\<open>query.All\<close> returned it: for an association that is
  not skipped and whose fetch returns such an error, the loader does not return; it goes on
  with the inner associations of that association and then with the next association, and
  when the association has no inner association and is the last one the load returns no
  error. The loader itself writes nothing: the query is unchanged and the memory is the
  memory before the fetch with the destination holding what the fetch left in it.
\<close>

theorem no_rows_is_tolerated:
  assumes "\<not> aSkipped a"
    and "fetch env model a err s = (Some e1, s1)"
    and "Cause e1 = ErrNoRows"
  shows "assocLoop call env model (a # rest) err s =
           (case innerLoop call model (aInner a) (Some e1) s1 of
              None \<Rightarrow> None
            | Some (r, err2, s2) \<Rightarrow>
                if r then Some (err2, s2) else assocLoop call env model rest err2 s2)
     \<and> (aInner a = [] \<longrightarrow>
           assocLoop call env model (a # rest) err s = assocLoop call env model rest (Some e1) s1)
     \<and> (aInner a = [] \<longrightarrow> assocLoop call env model [a] err s = Some (None, s1))
     \<and> q s1 = q s
     \<and> (aKind a = Struct \<longrightarrow>
           heap s1 = put (heap s) (model @ [Fld (aField a)])
             (snd (First env (subQuery env (q s) a (deref (heap s) model)
                                (deref (heap s) (model @ [Fld (aField a)])))
                     (deref (heap s) (model @ [Fld (aField a)])))))
     \<and> (aKind a = Slice \<or> aKind a = Array \<longrightarrow>
           heap s1 = put (heap s) (model @ [Fld (aField a)])
             (snd (All env (subQuery env (q s) a (deref (heap s) model)
                              (deref (heap s) (model @ [Fld (aField a)])))
                     (deref (heap s) (model @ [Fld (aField a)])))))"
proof -
  have nf: "\<not> fatal (Some e1)" using assms(3) by simp
  have 1: "assocLoop call env model (a # rest) err s =
           (case innerLoop call model (aInner a) (Some e1) s1 of
              None \<Rightarrow> None
            | Some (r, err2, s2) \<Rightarrow>
                if r then Some (err2, s2) else assocLoop call env model rest err2 s2)"
    using assms(1,2) nf by simp
  have 2: "aInner a = [] \<longrightarrow>
           assocLoop call env model (a # rest) err s = assocLoop call env model rest (Some e1) s1"
    using 1 by simp
  have 3: "aInner a = [] \<longrightarrow> assocLoop call env model [a] err s = Some (None, s1)"
    using assms(1,2) nf by simp
  have 4: "q s1 = q s"
    using assms(2) by (auto simp: fetch_def Let_def emit_def split: if_splits prod.splits)
  have 5: "aKind a = Struct \<longrightarrow>
           heap s1 = put (heap s) (model @ [Fld (aField a)])
             (snd (First env (subQuery env (q s) a (deref (heap s) model)
                                (deref (heap s) (model @ [Fld (aField a)])))
                     (deref (heap s) (model @ [Fld (aField a)]))))"
    using assms(2) by (auto simp: fetch_def Let_def emit_def split: prod.splits)
  have 6: "aKind a = Slice \<or> aKind a = Array \<longrightarrow>
           heap s1 = put (heap s) (model @ [Fld (aField a)])
             (snd (All env (subQuery env (q s) a (deref (heap s) model)
                              (deref (heap s) (model @ [Fld (aField a)])))
                     (deref (heap s) (model @ [Fld (aField a)]))))"
    using assms(2) by (auto simp: fetch_def Let_def emit_def split: prod.splits)
  show ?thesis by (intro conjI 1 2 3 4 5 6)
qed

theorem no_rows_is_tolerated_witness:
  "\<not> aSkipped wheelsOf \<and> aKind wheelsOf = Slice
   \<and> fst (fetch noRowsEnv [] wheelsOf None carState) = Some ErrNoRows
   \<and> Cause ErrNoRows = ErrNoRows
   \<and> assocLoop (eagerLoadDefault 0 noRowsEnv) noRowsEnv [] [wheelsOf] None carState =
        Some (None, snd (fetch noRowsEnv [] wheelsOf None carState))
   \<and> heap (snd (fetch noRowsEnv [] wheelsOf None carState)) = heap carState
   \<and> \<not> aSkipped ownerOf \<and> aKind ownerOf = Struct
   \<and> fst (fetch noRowsEnv [] ownerOf None carState) = Some (ErrWrap ''first'' ErrNoRows)
   \<and> Cause (ErrWrap ''first'' ErrNoRows) = ErrNoRows
   \<and> assocLoop (eagerLoadDefault 0 noRowsEnv) noRowsEnv [] [ownerOf] None carState =
        Some (None, snd (fetch noRowsEnv [] ownerOf None carState))
   \<and> heap (snd (fetch noRowsEnv [] ownerOf None carState)) = heap carState"
proof -
  let ?fw = "fetch noRowsEnv [] wheelsOf None carState"
  let ?fo = "fetch noRowsEnv [] ownerOf None carState"
  have w1: "fst ?fw = Some ErrNoRows"
    by (simp add: fetch_def Let_def wheelsOf_sel noRowsEnv_sel)
  have o1: "fst ?fo = Some (ErrWrap ''first'' ErrNoRows)"
    by (simp add: fetch_def Let_def ownerOf_sel noRowsEnv_sel)
  have fw: "?fw = (Some ErrNoRows, snd ?fw)" using w1 by (simp add: prod_eq_iff)
  have fo: "?fo = (Some (ErrWrap ''first'' ErrNoRows), snd ?fo)" using o1 by (simp add: prod_eq_iff)
  have cw: "Cause ErrNoRows = ErrNoRows" and co: "Cause (ErrWrap ''first'' ErrNoRows) = ErrNoRows"
    by simp_all
  note w = no_rows_is_tolerated [OF wheelsOf_sel(3) fw cw, of "eagerLoadDefault 0 noRowsEnv" "[]"]
  note o = no_rows_is_tolerated [OF ownerOf_sel(3) fo co, of "eagerLoadDefault 0 noRowsEnv" "[]"]
  have w2: "assocLoop (eagerLoadDefault 0 noRowsEnv) noRowsEnv [] [wheelsOf] None carState =
        Some (None, snd ?fw)"
    using w wheelsOf_sel(5) by blast
  have o2: "assocLoop (eagerLoadDefault 0 noRowsEnv) noRowsEnv [] [ownerOf] None carState =
        Some (None, snd ?fo)"
    using o ownerOf_sel(5) by blast
  have "heap (snd ?fw) = put (heap carState) ([] @ [Fld (aField wheelsOf)])
             (snd (All noRowsEnv (subQuery noRowsEnv (q carState) wheelsOf (deref (heap carState) [])
                              (deref (heap carState) ([] @ [Fld (aField wheelsOf)])))
                     (deref (heap carState) ([] @ [Fld (aField wheelsOf)]))))"
    using w wheelsOf_sel(2) by blast
  then have w3: "heap (snd ?fw) = heap carState"
    by (simp add: wheelsOf_sel noRowsEnv_sel carState_sel car_def deref_def)
  have "heap (snd ?fo) = put (heap carState) ([] @ [Fld (aField ownerOf)])
             (snd (First noRowsEnv (subQuery noRowsEnv (q carState) ownerOf (deref (heap carState) [])
                              (deref (heap carState) ([] @ [Fld (aField ownerOf)])))
                     (deref (heap carState) ([] @ [Fld (aField ownerOf)]))))"
    using o ownerOf_sel(2) by blast
  then have o3: "heap (snd ?fo) = heap carState"
    by (simp add: ownerOf_sel noRowsEnv_sel carState_sel car_def deref_def)
  show ?thesis
    by (intro conjI wheelsOf_sel(3) wheelsOf_sel(2) w1 cw w2 w3 ownerOf_sel(3) ownerOf_sel(2) o1 co o2 o3)
qed

section \<open>Fatal errors of a fetch\<close>

text \<open>
  Every call of \<^verbatim>\<open>eagerLoadDefault\<close> that returns has either made clean steps only
  or was aborted by the first fatal error of a fetch. As for the brackets of the trace, the
  lemmas on the loops are stated for any loader with this property.
\<close>

lemma replay_simps [simp]:
  "replay env h [] = h"
  "replay env h (evs @ evs') = replay env (replay env h evs) evs'"
  "replay env h (ev # evs) = replay env (applyEv env h ev) evs"
  by (simp_all add: replay_def)

lemma clean_simps [simp]:
  "clean []"
  "clean (evs @ evs') = (clean evs \<and> clean evs')"
  "clean (ev # evs) = (\<not> fatal (fetchErr ev) \<and> clean evs)"
  by (auto simp: clean_def)

lemma steps_refl: "steps env s s"
  unfolding steps_def by (intro exI[of _ "[]"]) simp

lemma steps_trans:
  assumes "steps env s s1" and "steps env s1 s2"
  shows "steps env s s2"
proof -
  from assms(1) obtain evs1 where 1: "log s1 = log s @ evs1" "heap s1 = replay env (heap s) evs1" "clean evs1"
    unfolding steps_def by (elim exE conjE)
  from assms(2) obtain evs2 where 2: "log s2 = log s1 @ evs2" "heap s2 = replay env (heap s1) evs2" "clean evs2"
    unfolding steps_def by (elim exE conjE)
  show ?thesis unfolding steps_def
    using 1 2 by (intro exI[of _ "evs1 @ evs2"]) simp
qed

lemma steps_aborted:
  assumes "steps env s s1" and "aborted env s1 e s2"
  shows "aborted env s e s2"
proof -
  from assms(1) obtain evs1 where 1: "log s1 = log s @ evs1" "heap s1 = replay env (heap s) evs1" "clean evs1"
    unfolding steps_def by (elim exE conjE)
  from assms(2) obtain pre ev post where 2: "log s2 = log s1 @ pre @ ev # post" "clean pre"
      "fatal (fetchErr ev)" "e = fetchErr ev" "\<forall>x \<in> set post. exitsWith e x"
      "heap s2 = replay env (heap s1) (pre @ [ev])"
    unfolding aborted_def by (elim exE conjE)
  show ?thesis unfolding aborted_def
    using 1 2 by (intro exI[of _ "evs1 @ pre"] exI[of _ ev] exI[of _ post]) simp
qed

lemma steps_settled:
  "steps env s s1 \<Longrightarrow> settled env s1 e s2 \<Longrightarrow> settled env s e s2"
  unfolding settled_def using steps_trans steps_aborted by blast

lemma settled_None: "settled env s None s' \<Longrightarrow> steps env s s'"
  unfolding settled_def aborted_def by auto

lemma steps_emit_Enter: "steps env s (emit (Enter p f) s)"
  unfolding steps_def by (intro exI[of _ "[Enter p f]"]) (simp add: emit_def)

lemma steps_fields: "steps env s (s\<lparr>q := qq\<rparr>)"
  unfolding steps_def by (intro exI[of _ "[]"]) simp

lemma settled_emit_Exit:
  assumes "settled env s e s1"
  shows "settled env s e (emit (Exit p e) s1)"
proof -
  from assms consider "steps env s s1" | "aborted env s e s1" unfolding settled_def by blast
  then show ?thesis
  proof cases
    case 1
    then obtain evs where "log s1 = log s @ evs" "heap s1 = replay env (heap s) evs" "clean evs"
      unfolding steps_def by (elim exE conjE)
    then have "steps env s (emit (Exit p e) s1)"
      unfolding steps_def by (intro exI[of _ "evs @ [Exit p e]"]) (simp add: emit_def)
    then show ?thesis unfolding settled_def by simp
  next
    case 2
    then obtain pre ev post where 2: "log s1 = log s @ pre @ ev # post" "clean pre"
      "fatal (fetchErr ev)" "e = fetchErr ev" "\<forall>x \<in> set post. exitsWith e x"
      "heap s1 = replay env (heap s) (pre @ [ev])"
      unfolding aborted_def by (elim exE conjE)
    then have "aborted env s e (emit (Exit p e) s1)"
      unfolding aborted_def
      by (intro exI[of _ pre] exI[of _ ev] exI[of _ "post @ [Exit p e]"]) (simp add: emit_def)
    then show ?thesis unfolding settled_def by simp
  qed
qed

lemma fetch_settled:
  assumes "fetch env model a err s = (e, s')"
  shows "settled env s e s'" and "\<not> fatal e \<Longrightarrow> steps env s s'"
proof -
  let ?dest = "model @ [Fld (aField a)]"
  let ?qu = "subQuery env (q s) a (deref (heap s) model) (deref (heap s) ?dest)"
  consider (all) "aKind a = Slice \<or> aKind a = Array"
    | (first) "\<not> (aKind a = Slice \<or> aKind a = Array)" "aKind a = Struct"
    | (none) "\<not> (aKind a = Slice \<or> aKind a = Array)" "aKind a \<noteq> Struct" by blast
  then have "settled env s e s' \<and> (\<not> fatal e \<longrightarrow> steps env s s')"
  proof cases
    case all
    with assms have e: "e = fst (All env ?qu (deref (heap s) ?dest))"
      and l: "log s' = log s @ [FetchAll ?qu ?dest e]"
      and h: "heap s' = put (heap s) ?dest (snd (All env ?qu (deref (heap s) ?dest)))"
      by (auto simp: fetch_def Let_def emit_def split: prod.splits)
    have r: "heap s' = replay env (heap s) [FetchAll ?qu ?dest e]" using h by simp
    show ?thesis
    proof (cases "fatal e")
      case True
      have "aborted env s e s'" unfolding aborted_def
        using l r True by (intro exI[of _ "[]"] exI[of _ "FetchAll ?qu ?dest e"] exI[of _ "[]"]) simp
      with True show ?thesis unfolding settled_def by simp
    next
      case False
      have "steps env s s'" unfolding steps_def
        using l r False by (intro exI[of _ "[FetchAll ?qu ?dest e]"]) simp
      then show ?thesis unfolding settled_def by simp
    qed
  next
    case first
    with assms have e: "e = fst (First env ?qu (deref (heap s) ?dest))"
      and l: "log s' = log s @ [FetchFirst ?qu ?dest e]"
      and h: "heap s' = put (heap s) ?dest (snd (First env ?qu (deref (heap s) ?dest)))"
      by (auto simp: fetch_def Let_def emit_def split: prod.splits)
    have r: "heap s' = replay env (heap s) [FetchFirst ?qu ?dest e]" using h by simp
    show ?thesis
    proof (cases "fatal e")
      case True
      have "aborted env s e s'" unfolding aborted_def
        using l r True by (intro exI[of _ "[]"] exI[of _ "FetchFirst ?qu ?dest e"] exI[of _ "[]"]) simp
      with True show ?thesis unfolding settled_def by simp
    next
      case False
      have "steps env s s'" unfolding steps_def
        using l r False by (intro exI[of _ "[FetchFirst ?qu ?dest e]"]) simp
      then show ?thesis unfolding settled_def by simp
    qed
  next
    case none
    with assms have "s' = s" by (simp add: fetch_def Let_def)
    then show ?thesis unfolding settled_def using steps_refl by simp
  qed
  then show "settled env s e s'" and "\<not> fatal e \<Longrightarrow> steps env s s'" by simp_all
qed

lemma soundD: "sound env call \<Longrightarrow> call p s = Some (e, s') \<Longrightarrow> settled env s e s'"
  by (auto simp: sound_def)

lemma steps_imp_settled: "steps env s s' \<Longrightarrow> settled env s e s'"
  by (simp add: settled_def)

lemma innerLoop_settled:
  "sound env call \<Longrightarrow> innerLoop call model inners err s = Some (ret, e, s') \<Longrightarrow>
     (ret \<longrightarrow> settled env s e s') \<and> (\<not> ret \<longrightarrow> steps env s s')"
proof (induction inners arbitrary: err s)
  case Nil
  then show ?case by (simp add: steps_refl)
next
  case (Cons inner rest)
  note snd = Cons.prems(1) and run = Cons.prems(2)
  show ?case
  proof (cases "deref (heap s) model")
    case (VStruct fs)
    let ?s1 = "s\<lparr>q := (q s)\<lparr>eagerFields := [Fields inner]\<rparr>\<rparr>"
    have st1: "steps env s ?s1" by (rule steps_fields)
    show ?thesis
    proof (cases "map_of fs (Name inner)")
      case None
      with VStruct run have "ret" "s' = ?s1" by (auto simp: Let_def)
      with st1 show ?thesis by (simp add: steps_imp_settled)
    next
      case (Some x)
      with VStruct run obtain e1 s2 where c: "call (model @ [Fld (Name inner)]) ?s1 = Some (e1, s2)"
        by (auto simp: Let_def split: option.splits)
      have se: "settled env s e1 s2" by (rule steps_settled[OF st1 soundD[OF snd c]])
      show ?thesis
      proof (cases "e1 = None")
        case False
        with VStruct Some c run have "ret" "e = e1" "s' = s2" by (auto simp: Let_def)
        with se show ?thesis by simp
      next
        case True
        with VStruct Some c run have r: "innerLoop call model rest e1 s2 = Some (ret, e, s')"
          by (auto simp: Let_def)
        from se True have st2: "steps env s s2" by (simp add: settled_None)
        from Cons.IH[OF snd r] have "(ret \<longrightarrow> settled env s2 e s') \<and> (\<not> ret \<longrightarrow> steps env s2 s')" .
        with st2 show ?thesis using steps_settled steps_trans by blast
      qed
    qed
  qed (use run in \<open>auto simp: steps_refl steps_imp_settled\<close>)
qed

lemma assocLoop_settled:
  "sound env call \<Longrightarrow> assocLoop call env model assos err s = Some (e, s') \<Longrightarrow> settled env s e s'"
proof (induction assos arbitrary: err s)
  case Nil
  then show ?case by (simp add: steps_refl steps_imp_settled)
next
  case (Cons a assos)
  note snd = Cons.prems(1) and run = Cons.prems(2)
  show ?case
  proof (cases "aSkipped a")
    case True
    with run Cons.IH[OF snd] show ?thesis by simp
  next
    case False
    obtain err1 s1 where f: "fetch env model a err s = (err1, s1)" by (cases "fetch env model a err s")
    show ?thesis
    proof (cases "fatal err1")
      case True
      with False f run have "e = err1" "s' = s1" by simp_all
      with fetch_settled(1)[OF f] show ?thesis by simp
    next
      case nf: False
      from fetch_settled(2)[OF f nf] have st1: "steps env s s1" .
      from False f nf run obtain ret err2 s2 where
        i: "innerLoop call model (aInner a) err1 s1 = Some (ret, err2, s2)"
        by (auto split: option.splits)
      from innerLoop_settled[OF snd i]
      have il: "(ret \<longrightarrow> settled env s1 err2 s2) \<and> (\<not> ret \<longrightarrow> steps env s1 s2)" .
      show ?thesis
      proof (cases ret)
        case True
        with False f nf i run have "e = err2" "s' = s2" by simp_all
        with il True st1 show ?thesis using steps_settled by blast
      next
        case r: False
        with False f nf i run have "assocLoop call env model assos err2 s2 = Some (e, s')" by simp
        from Cons.IH[OF snd this] have "settled env s2 e s'" .
        moreover from il r st1 have "steps env s s2" using steps_trans by blast
        ultimately show ?thesis by (rule steps_settled[rotated])
      qed
    qed
  qed
qed

lemma elemLoop_settled:
  "sound env call \<Longrightarrow> elemLoop call model i n err0 s = Some (err, s') \<Longrightarrow> settled env s err s'"
proof (induction call model i n err0 s arbitrary: err s' rule: elemLoop.induct)
  case (1 call model i n err0 s)
  note snd = "1.prems"(1) and run = "1.prems"(2)
  show ?case
  proof (cases "i < n")
    case False
    from run False have "Some (err0, s) = Some (err, s')"
      by (subst (asm) elemLoop.simps) simp
    then have "s' = s" by simp
    then show ?thesis by (simp add: steps_refl steps_imp_settled)
  next
    case True
    from run True have run': "(case call (model @ [Idx i]) s of None \<Rightarrow> None
         | Some (e, s1) \<Rightarrow> if e \<noteq> None then Some (e, s1)
             else elemLoop call model (Suc i) n e s1) = Some (err, s')"
      by (subst (asm) elemLoop.simps) simp
    then obtain e s1 where c: "call (model @ [Idx i]) s = Some (e, s1)"
      by (cases "call (model @ [Idx i]) s") auto
    from soundD[OF snd c] have se: "settled env s e s1" .
    show ?thesis
    proof (cases "e = None")
      case False
      with c run' have "err = e" "s' = s1" by simp_all
      with se show ?thesis by simp
    next
      case e: True
      with c run' have r: "elemLoop call model (Suc i) n e s1 = Some (err, s')" by simp
      have ne: "\<not> e \<noteq> None" using e by simp
      from "1.IH"[OF True c refl ne snd r] have "settled env s1 err s'" .
      moreover from se e have "steps env s s1" by (simp add: settled_None)
      ultimately show ?thesis by (rule steps_settled[rotated])
    qed
  qed
qed

lemma body_settled:
  assumes "sound env call" and "eagerLoadDefault_body call env model s = Some (e, s')"
  shows "settled env s e s'"
proof (cases "Kind (deref (heap s) model) = Slice \<or> Kind (deref (heap s) model) = Array")
  case True
  with assms(2) have "elemLoop call model 0 (Len (deref (heap s) model)) None s = Some (e, s')"
    by (simp add: eagerLoadDefault_body_def Let_def)
  from elemLoop_settled[OF assms(1) this] show ?thesis .
next
  case False
  show ?thesis
  proof (cases "AssociationsForStruct env (deref (heap s) model) (eagerFields (q s))")
    case (Inl x)
    with False assms(2) have "s' = s" by (simp add: eagerLoadDefault_body_def Let_def)
    then show ?thesis by (simp add: steps_refl steps_imp_settled)
  next
    case (Inr assos)
    with False assms(2) have "assocLoop call env model assos None s = Some (e, s')"
      by (simp add: eagerLoadDefault_body_def Let_def)
    from assocLoop_settled[OF assms(1) this] show ?thesis .
  qed
qed

lemma eagerLoadDefault_sound: "sound env (eagerLoadDefault d env)"
proof (induction d)
  case 0
  show ?case by (simp add: sound_def)
next
  case (Suc d)
  show ?case unfolding sound_def
  proof (intro allI impI)
    fix p s e s'
    assume run: "eagerLoadDefault (Suc d) env p s = Some (e, s')"
    then obtain s1 where b: "eagerLoadDefault_body (eagerLoadDefault d env) env p
        (emit (Enter p (eagerFields (q s))) s) = Some (e, s1)" and s': "s' = emit (Exit p e) s1"
      by (auto split: option.splits)
    from body_settled[OF Suc b] have "settled env (emit (Enter p (eagerFields (q s))) s) e s1" .
    with steps_emit_Enter have "settled env s e s1" by (rule steps_settled)
    then show "settled env s e s'" unfolding s' by (rule settled_emit_Exit)
  qed
qed

lemma applyEv_exit: "exitsWith e x \<Longrightarrow> applyEv env h x = h"
  by (cases x) simp_all

lemma replay_exits: "\<forall>x \<in> set post. exitsWith e x \<Longrightarrow> replay env h post = h"
  by (induction post arbitrary: h) (auto simp: applyEv_exit)

lemma failEnv_sel:
  "All failEnv = (\<lambda>qu dest. (None, VSlice [wheel 1, wheel 2, wheel 3, wheel 4]))"
  "First failEnv = (\<lambda>qu dest. (Some (ErrOther ''connection lost''), dest))"
  "AssociationsForStruct failEnv = (\<lambda>v fields. if Kind v = Struct then Inr [wheelsOf, ownerOf]
                    else Inl (ErrOther ''not a struct''))"
  by (simp_all add: failEnv_def carEnv_def)

lemma fetched_fetchErr: "(p, e) \<in> set (fetched evs) \<Longrightarrow> \<exists>ev \<in> set evs. fetchErr ev = e"
proof (induction evs)
  case Nil
  then show ?case by simp
next
  case (Cons ev evs)
  then show ?case by (cases ev) auto
qed

lemma fail_run:
  "map_option (\<lambda>(e, s). (e, fetched (log s), deref (heap s) [Fld ''Wheels'']))
     (eagerLoadDefault 1 failEnv [] carState) =
   Some (Some (ErrOther ''connection lost''),
         [([Fld ''Wheels''], None), ([Fld ''Owner''], Some (ErrOther ''connection lost''))],
         VSlice [wheel 1, wheel 2, wheel 3, wheel 4])"
  by (simp add: eagerLoadDefault_body_def emit_def deref_def Let_def fetch_def
      wheelsOf_sel ownerOf_sel failEnv_sel carState_def car_def Q_def)

lemma fail_wheels_fetch:
  "fst (fetch failEnv [] wheelsOf e s) = None"
  by (simp add: fetch_def Let_def wheelsOf_sel failEnv_sel)

lemma fail_owner_fetch:
  "fst (fetch failEnv [] ownerOf e s) = Some (ErrOther ''connection lost'')"
  by (simp add: fetch_def Let_def ownerOf_sel failEnv_sel)

text \<open>
  C3. Take a call on a record whose associations are those of \<open>pre\<close>, then \<open>a\<close>, then
  those of \<open>rest\<close>, in which the associations of \<open>pre\<close> are done without a return
  (state \<open>s0\<close>) and the fetch of \<open>a\<close>, which is not skipped, returns an error
  \<open>err1\<close> other than no rows (state \<open>s1\<close>). Whatever \<open>rest\<close> and the inner
  associations of \<open>a\<close> are, the call returns \<open>err1\<close> unchanged, at every depth above
  the one in which \<open>pre\<close> was done, in a state that differs from \<open>s1\<close> by its own
  return in the trace only: no association of \<open>rest\<close> is processed, no nested call is
  made for \<open>a\<close>, and the memory is the one the fetch left, in which the fields populated
  for \<open>pre\<close> keep their values.

  Moreover, in every load that returns, the memory is the replay of the fetches of the
  trace, in their order. If some fetch of the load, at any depth, returned an error other
  than no rows, then it is the only such fetch, the load returns the error of that fetch
  unchanged, and after that fetch the trace holds nothing but the returns of the calls
  under way, each with that error: no other association is fetched and no nested call is
  entered. The memory is then the replay of the events up to and including that fetch, so
  the fields populated before it keep their values.
\<close>

theorem fatal_fetch_aborts_the_load:
  "(Kind (deref (heap s) model) \<noteq> Slice \<and> Kind (deref (heap s) model) \<noteq> Array
      \<and> AssociationsForStruct env (deref (heap s) model) (eagerFields (q s)) = Inr (pre @ a # rest)
      \<and> assocSteps (eagerLoadDefault d env) env model pre None
          (emit (Enter model (eagerFields (q s))) s) = Some (False, err0, s0)
      \<and> \<not> aSkipped a \<and> fetch env model a err0 s0 = (err1, s1) \<and> fatal err1
    \<longrightarrow> (\<exists>t. (\<forall>d'. d < d' \<longrightarrow> eagerLoadDefault d' env model s = Some (err1, t))
           \<and> log t = log s1 @ [Exit model err1] \<and> heap t = heap s1))
   \<and> (eagerLoadDefault d env model s = Some (err, s')
    \<longrightarrow> (\<exists>evs. log s' = log s @ evs \<and> heap s' = replay env (heap s) evs
         \<and> ((\<exists>ev \<in> set evs. fatal (fetchErr ev)) \<longrightarrow>
              (\<exists>pre ev post. evs = pre @ ev # post
                 \<and> (\<forall>x \<in> set pre. \<not> fatal (fetchErr x))
                 \<and> fatal (fetchErr ev) \<and> err = fetchErr ev
                 \<and> (\<forall>x \<in> set post. exitsWith err x)
                 \<and> heap s' = replay env (heap s) (pre @ [ev])))))"
proof (intro conjI impI)
  let ?s0 = "emit (Enter model (eagerFields (q s))) s"
  let ?t = "emit (Exit model err1) s1"
  assume h: "Kind (deref (heap s) model) \<noteq> Slice \<and> Kind (deref (heap s) model) \<noteq> Array
      \<and> AssociationsForStruct env (deref (heap s) model) (eagerFields (q s)) = Inr (pre @ a # rest)
      \<and> assocSteps (eagerLoadDefault d env) env model pre None ?s0 = Some (False, err0, s0)
      \<and> \<not> aSkipped a \<and> fetch env model a err0 s0 = (err1, s1) \<and> fatal err1"
  have h0: "heap ?s0 = heap s" and q0: "q ?s0 = q s" by (simp_all add: emit_def)
  from h have st: "assocSteps (eagerLoadDefault d env) env model pre None ?s0 = Some (False, err0, s0)"
    and ns: "\<not> aSkipped a" and f: "fetch env model a err0 s0 = (err1, s1)" and fa: "fatal err1"
    by simp_all
  have "assocLoop (eagerLoadDefault d env) env model (pre @ a # rest) None ?s0 = Some (err1, s1)"
    using st ns f fa by (rule assocLoop_fatal)
  with h have "eagerLoadDefault_body (eagerLoadDefault d env) env model ?s0 = Some (err1, s1)"
    by (simp add: eagerLoadDefault_body_def Let_def h0 q0)
  then have run: "eagerLoadDefault (Suc d) env model s = Some (err1, ?t)"
    by simp
  have every: "\<forall>d'. d < d' \<longrightarrow> eagerLoadDefault d' env model s = Some (err1, ?t)"
  proof (intro allI impI)
    fix d' assume "d < d'"
    then have "Suc d \<le> d'" by simp
    with run show "eagerLoadDefault d' env model s = Some (err1, ?t)"
      by (rule eagerLoadDefault_more_depth)
  qed
  have lg: "log ?t = log s1 @ [Exit model err1]" and hp: "heap ?t = heap s1"
    by (simp_all add: emit_def)
  show "\<exists>t. (\<forall>d'. d < d' \<longrightarrow> eagerLoadDefault d' env model s = Some (err1, t))
           \<and> log t = log s1 @ [Exit model err1] \<and> heap t = heap s1"
    by (intro exI[of _ ?t] conjI every lg hp)
next
  assume run: "eagerLoadDefault d env model s = Some (err, s')"
  from eagerLoadDefault_sound run have "settled env s err s'" by (rule soundD)
  then consider "steps env s s'" | "aborted env s err s'" unfolding settled_def by blast
  then show "\<exists>evs. log s' = log s @ evs \<and> heap s' = replay env (heap s) evs
         \<and> ((\<exists>ev \<in> set evs. fatal (fetchErr ev)) \<longrightarrow>
              (\<exists>pre ev post. evs = pre @ ev # post
                 \<and> (\<forall>x \<in> set pre. \<not> fatal (fetchErr x))
                 \<and> fatal (fetchErr ev) \<and> err = fetchErr ev
                 \<and> (\<forall>x \<in> set post. exitsWith err x)
                 \<and> heap s' = replay env (heap s) (pre @ [ev])))"
  proof cases
    case 1
    then obtain evs where e: "log s' = log s @ evs" "heap s' = replay env (heap s) evs" "clean evs"
      unfolding steps_def by (elim exE conjE)
    from e(3) have "\<not> (\<exists>ev \<in> set evs. fatal (fetchErr ev))" by (simp add: clean_def)
    with e(1,2) show ?thesis by (intro exI[of _ evs]) simp
  next
    case 2
    then obtain pre ev post where a: "log s' = log s @ pre @ ev # post" "clean pre"
      "fatal (fetchErr ev)" "err = fetchErr ev" "\<forall>x \<in> set post. exitsWith err x"
      "heap s' = replay env (heap s) (pre @ [ev])"
      unfolding aborted_def by (elim exE conjE)
    have h: "heap s' = replay env (heap s) (pre @ ev # post)"
      using a(6) replay_exits[OF a(5)] by simp
    have p: "\<forall>x \<in> set pre. \<not> fatal (fetchErr x)" using a(2) by (simp add: clean_def)
    have "\<exists>pre' ev' post'. pre @ ev # post = pre' @ ev' # post'
             \<and> (\<forall>x \<in> set pre'. \<not> fatal (fetchErr x))
             \<and> fatal (fetchErr ev') \<and> err = fetchErr ev'
             \<and> (\<forall>x \<in> set post'. exitsWith err x)
             \<and> heap s' = replay env (heap s) (pre' @ [ev'])"
      using p a(3,4,5,6) by (intro exI[of _ pre] exI[of _ ev] exI[of _ post]) simp
    with a(1) h show ?thesis by (intro exI[of _ "pre @ ev # post"]) simp
  qed
qed

theorem fatal_fetch_aborts_the_load_witness:
  "\<exists>s'. eagerLoadDefault 1 failEnv [] carState = Some (Some (ErrOther ''connection lost''), s')
     \<and> log s' = log (snd (fetch failEnv [] ownerOf None
                  (snd (fetch failEnv [] wheelsOf None (emit (Enter [] []) carState)))))
               @ [Exit [] (Some (ErrOther ''connection lost''))]
     \<and> heap s' = heap (snd (fetch failEnv [] ownerOf None
                  (snd (fetch failEnv [] wheelsOf None (emit (Enter [] []) carState)))))
     \<and> (\<exists>ev \<in> set (log s'). fatal (fetchErr ev))
     \<and> (\<exists>pre ev post. log s' = pre @ ev # post
           \<and> (\<forall>x \<in> set pre. \<not> fatal (fetchErr x))
           \<and> fetchErr ev = Some (ErrOther ''connection lost'')
           \<and> (\<forall>x \<in> set post. exitsWith (Some (ErrOther ''connection lost'')) x)
           \<and> heap s' = replay failEnv (heap carState) (pre @ [ev]))
     \<and> deref (heap s') [Fld ''Wheels''] = VSlice [wheel 1, wheel 2, wheel 3, wheel 4]"
proof -
  let ?E = "Some (ErrOther ''connection lost'')"
  let ?s0 = "emit (Enter [] (eagerFields (q carState))) carState"
  let ?g = "fetch failEnv [] wheelsOf None ?s0"
  let ?h = "fetch failEnv [] ownerOf (fst ?g) (snd ?g)"
  let ?w = "fetch failEnv [] ownerOf None
                  (snd (fetch failEnv [] wheelsOf None (emit (Enter [] []) carState)))"
  have kind: "Kind (deref (heap carState) []) \<noteq> Slice \<and> Kind (deref (heap carState) []) \<noteq> Array"
    by (simp add: carState_sel deref_def car_def)
  have assos: "AssociationsForStruct failEnv (deref (heap carState) []) (eagerFields (q carState))
      = Inr ([wheelsOf] @ ownerOf # [])"
    by (simp add: failEnv_sel carState_sel deref_def car_def)
  have pre: "assocSteps (eagerLoadDefault 0 failEnv) failEnv [] [wheelsOf] None ?s0
      = Some (False, fst ?g, snd ?g)"
    by (simp add: wheelsOf_sel fail_wheels_fetch case_prod_beta)
  have ns: "\<not> aSkipped ownerOf" by (simp add: ownerOf_sel)
  have h: "?h = (fst ?h, snd ?h)" by simp
  have e: "fst ?h = ?E" by (rule fail_owner_fetch)
  have fa: "fatal (fst ?h)" unfolding e by simp
  have hh: "?h = ?w" by (simp add: fail_wheels_fetch carState_sel Q_def)
  note inst = fatal_fetch_aborts_the_load [of carState "[]" failEnv "[wheelsOf]" ownerOf "[]" 0
      "fst ?g" "snd ?g" "fst ?h" "snd ?h"]
  from inst kind assos pre ns h fa
  have "\<exists>t. (\<forall>d'. 0 < d' \<longrightarrow> eagerLoadDefault d' failEnv [] carState = Some (fst ?h, t))
           \<and> log t = log (snd ?h) @ [Exit [] (fst ?h)] \<and> heap t = heap (snd ?h)"
    by blast
  then obtain t where every: "\<forall>d'. 0 < d' \<longrightarrow> eagerLoadDefault d' failEnv [] carState = Some (fst ?h, t)"
    and lgt: "log t = log (snd ?h) @ [Exit [] (fst ?h)]" and hpt: "heap t = heap (snd ?h)"
    by (elim exE conjE)
  have pos: "(0::nat) < 1" by simp
  from every[rule_format, OF pos]
  have run0: "eagerLoadDefault 1 failEnv [] carState = Some (fst ?h, t)" .
  then have run: "eagerLoadDefault 1 failEnv [] carState = Some (?E, t)" unfolding e .
  have ew: "fst ?w = ?E" by (rule fail_owner_fetch)
  have lg: "log t = log (snd ?w) @ [Exit [] ?E]" using lgt unfolding hh ew .
  have hp: "heap t = heap (snd ?w)" using hpt unfolding hh .
  from fail_run run
  have fe: "fetched (log t) = [([Fld ''Wheels''], None), ([Fld ''Owner''], ?E)]"
    and wh: "deref (heap t) [Fld ''Wheels''] = VSlice [wheel 1, wheel 2, wheel 3, wheel 4]"
    by simp_all
  have "([Fld ''Owner''], ?E) \<in> set (fetched (log t))" unfolding fe by simp
  from fetched_fetchErr[OF this] obtain ev0 where ev0: "ev0 \<in> set (log t)" "fetchErr ev0 = ?E"
    by (elim bexE)
  have fat: "\<exists>ev \<in> set (log t). fatal (fetchErr ev)"
    using ev0 by (intro bexI[of _ ev0]) simp_all
  note inst1 = fatal_fetch_aborts_the_load [of carState "[]" failEnv _ _ _ 1 _ _ _ _ ?E t]
  from inst1[THEN conjunct2, THEN mp, OF run]
  obtain evs where evs: "log t = log carState @ evs"
    and imp: "(\<exists>ev \<in> set evs. fatal (fetchErr ev)) \<longrightarrow>
          (\<exists>pre ev post. evs = pre @ ev # post
             \<and> (\<forall>x \<in> set pre. \<not> fatal (fetchErr x))
             \<and> fatal (fetchErr ev) \<and> ?E = fetchErr ev
             \<and> (\<forall>x \<in> set post. exitsWith ?E x)
             \<and> heap t = replay failEnv (heap carState) (pre @ [ev]))"
    by (elim exE conjE)
  have l: "log t = evs" using evs by (simp add: carState_sel)
  from imp fat obtain pre ev post where c: "log t = pre @ ev # post"
      "\<forall>x \<in> set pre. \<not> fatal (fetchErr x)" "fetchErr ev = ?E"
      "\<forall>x \<in> set post. exitsWith ?E x"
      "heap t = replay failEnv (heap carState) (pre @ [ev])"
    unfolding l[symmetric] by (elim impE exE conjE) simp_all
  have ex: "\<exists>pre ev post. log t = pre @ ev # post
           \<and> (\<forall>x \<in> set pre. \<not> fatal (fetchErr x))
           \<and> fetchErr ev = ?E
           \<and> (\<forall>x \<in> set post. exitsWith ?E x)
           \<and> heap t = replay failEnv (heap carState) (pre @ [ev])"
    using c by (intro exI[of _ pre] exI[of _ ev] exI[of _ post] conjI)
  show ?thesis
    by (intro exI[of _ t] conjI run lg hp fat ex wh)
qed

section \<open>The field names of the query\<close>

lemma fieldsAfter_simps [simp]:
  "fieldsAfter f [] = f"
  "fieldsAfter f (evs @ evs') = fieldsAfter (fieldsAfter f evs) evs'"
  "fieldsAfter f (ev # evs) = fieldsAfter (fieldsAfterEv f ev) evs"
  by (simp_all add: fieldsAfter_def)

lemma trackedD:
  "tracked call \<Longrightarrow> call p s = Some (None, s') \<Longrightarrow>
     \<exists>evs. log s' = log s @ Enter p (eagerFields (q s)) # evs
          \<and> eagerFields (q s') = fieldsAfter (eagerFields (q s)) evs"
  by (simp add: tracked_def)

lemma innerLoop_returned: "innerLoop call model inners err s = Some (True, e, s') \<Longrightarrow> e \<noteq> None"
proof (induction inners arbitrary: err s)
  case Nil
  then show ?case by simp
next
  case (Cons inner rest)
  show ?case
  proof (cases "deref (heap s) model")
    case (VStruct fs)
    with Cons.prems Cons.IH show ?thesis
      by (auto simp: Let_def split: option.splits if_splits)
  qed (use Cons.prems in auto)
qed

lemma no_calls_fieldsAfter: "\<forall>ev \<in> set evs. \<not> isCall ev \<Longrightarrow> fieldsAfter f evs = f"
proof (induction evs)
  case Nil
  show ?case by simp
next
  case (Cons ev evs)
  then show ?case by (cases ev) simp_all
qed

lemma fetch_query:
  "fetch env model a err s = (e, s') \<Longrightarrow> q s' = q s"
  by (auto simp: fetch_def Let_def emit_def split: if_splits prod.splits)

lemma fetch_fields:
  assumes "fetch env model a err s = (e, s')"
  shows "\<exists>evs. log s' = log s @ evs \<and> eagerFields (q s') = fieldsAfter (eagerFields (q s)) evs"
proof -
  from fetch_log[OF assms] obtain evs where l: "log s' = log s @ evs"
    and n: "\<forall>ev \<in> set evs. \<not> isCall ev" by blast
  show ?thesis
    using l no_calls_fieldsAfter[OF n] fetch_query[OF assms] by (intro exI[of _ evs]) simp
qed

lemma innerLoop_fields:
  "tracked call \<Longrightarrow> innerLoop call model inners err s = Some (False, e, s') \<Longrightarrow>
     \<exists>evs. log s' = log s @ evs \<and> (\<forall>f. inners \<noteq> [] \<longrightarrow> eagerFields (q s') = fieldsAfter f evs)
          \<and> eagerFields (q s') = fieldsAfter (eagerFields (q s)) evs"
proof (induction inners arbitrary: err s)
  case Nil
  then show ?case by (intro exI[of _ "[]"]) simp
next
  case (Cons inner rest)
  note tr = Cons.prems(1) and run = Cons.prems(2)
  show ?case
  proof (cases "deref (heap s) model")
    case (VStruct fs)
    let ?s1 = "s\<lparr>q := (q s)\<lparr>eagerFields := [Fields inner]\<rparr>\<rparr>"
    let ?p = "model @ [Fld (Name inner)]"
    from VStruct run obtain x where x: "map_of fs (Name inner) = Some x"
      by (cases "map_of fs (Name inner)") (auto simp: Let_def)
    with VStruct run obtain e1 s2 where c: "call ?p ?s1 = Some (e1, s2)"
      by (auto simp: Let_def split: option.splits)
    with VStruct x run have e1: "e1 = None" by (auto simp: Let_def split: if_splits)
    with VStruct x c run have r: "innerLoop call model rest e1 s2 = Some (False, e, s')"
      by (auto simp: Let_def)
    from trackedD[OF tr c[unfolded e1]] obtain evs1 where
      l1: "log s2 = log s @ Enter ?p [Fields inner] # evs1"
      and f1: "eagerFields (q s2) = fieldsAfter [Fields inner] evs1" by auto
    from Cons.IH[OF tr r] obtain evs2 where
      l2: "log s' = log s2 @ evs2"
      and f2: "eagerFields (q s') = fieldsAfter (eagerFields (q s2)) evs2" by blast
    show ?thesis
      using l1 f1 l2 f2 by (intro exI[of _ "Enter ?p [Fields inner] # evs1 @ evs2"]) simp
  qed (use run in auto)
qed

lemma assocLoop_fields:
  "tracked call \<Longrightarrow> assocLoop call env model assos err s = Some (None, s') \<Longrightarrow>
     \<exists>evs. log s' = log s @ evs \<and> eagerFields (q s') = fieldsAfter (eagerFields (q s)) evs"
proof (induction assos arbitrary: err s)
  case Nil
  then show ?case by (intro exI[of _ "[]"]) simp
next
  case (Cons a assos)
  note tr = Cons.prems(1) and run = Cons.prems(2)
  show ?case
  proof (cases "aSkipped a")
    case True
    with run Cons.IH[OF tr] show ?thesis by simp
  next
    case False
    obtain err1 s1 where f: "fetch env model a err s = (err1, s1)" by (cases "fetch env model a err s")
    from fetch_fields[OF f] obtain evs0 where
      l0: "log s1 = log s @ evs0" and f0: "eagerFields (q s1) = fieldsAfter (eagerFields (q s)) evs0"
      by blast
    from False f run have nf: "\<not> fatal err1" by (auto split: if_splits)
    from False f nf run obtain ret err2 s2 where
      i: "innerLoop call model (aInner a) err1 s1 = Some (ret, err2, s2)"
      by (auto split: option.splits)
    have nr: "\<not> ret"
    proof
      assume ret
      with False f nf i run have "err2 = None" by simp
      moreover from \<open>ret\<close> i have "innerLoop call model (aInner a) err1 s1 = Some (True, err2, s2)"
        by simp
      ultimately show False using innerLoop_returned by blast
    qed
    with i have i': "innerLoop call model (aInner a) err1 s1 = Some (False, err2, s2)" by simp
    from innerLoop_fields[OF tr i'] obtain evs1 where
      l1: "log s2 = log s1 @ evs1" and f1: "eagerFields (q s2) = fieldsAfter (eagerFields (q s1)) evs1"
      by blast
    from False f nf i nr run have "assocLoop call env model assos err2 s2 = Some (None, s')" by simp
    from Cons.IH[OF tr this] obtain evs2 where
      l2: "log s' = log s2 @ evs2" and f2: "eagerFields (q s') = fieldsAfter (eagerFields (q s2)) evs2"
      by blast
    show ?thesis
      using l0 f0 l1 f1 l2 f2 by (intro exI[of _ "evs0 @ evs1 @ evs2"]) simp
  qed
qed

lemma elemLoop_fields:
  "tracked call \<Longrightarrow> elemLoop call model i n err0 s = Some (None, s') \<Longrightarrow>
     \<exists>evs. log s' = log s @ evs \<and> eagerFields (q s') = fieldsAfter (eagerFields (q s)) evs"
proof (induction call model i n err0 s arbitrary: s' rule: elemLoop.induct)
  case (1 call model i n err0 s)
  note tr = "1.prems"(1) and run = "1.prems"(2)
  show ?case
  proof (cases "i < n")
    case False
    from run False have "Some (err0, s) = Some (None, s')"
      by (subst (asm) elemLoop.simps) simp
    then have "s' = s" by simp
    then show ?thesis by (intro exI[of _ "[]"]) simp
  next
    case True
    from run True have run': "(case call (model @ [Idx i]) s of None \<Rightarrow> None
         | Some (e, s1) \<Rightarrow> if e \<noteq> None then Some (e, s1)
             else elemLoop call model (Suc i) n e s1) = Some (None, s')"
      by (subst (asm) elemLoop.simps) simp
    then obtain e s1 where c: "call (model @ [Idx i]) s = Some (e, s1)"
      by (cases "call (model @ [Idx i]) s") auto
    with run' have e: "e = None" by (auto split: if_splits)
    with c run' have r: "elemLoop call model (Suc i) n e s1 = Some (None, s')" by simp
    have ne: "\<not> e \<noteq> None" using e by simp
    from trackedD[OF tr c[unfolded e]] obtain evs1 where
      l1: "log s1 = log s @ Enter (model @ [Idx i]) (eagerFields (q s)) # evs1"
      and f1: "eagerFields (q s1) = fieldsAfter (eagerFields (q s)) evs1" by blast
    from "1.IH"[OF True c refl ne tr r] obtain evs2 where
      l2: "log s' = log s1 @ evs2" and f2: "eagerFields (q s') = fieldsAfter (eagerFields (q s1)) evs2"
      by blast
    show ?thesis
      using l1 f1 l2 f2
      by (intro exI[of _ "Enter (model @ [Idx i]) (eagerFields (q s)) # evs1 @ evs2"]) simp
  qed
qed

lemma body_fields:
  assumes "tracked call" and "eagerLoadDefault_body call env model s = Some (None, s')"
  shows "\<exists>evs. log s' = log s @ evs \<and> eagerFields (q s') = fieldsAfter (eagerFields (q s)) evs"
proof (cases "Kind (deref (heap s) model) = Slice \<or> Kind (deref (heap s) model) = Array")
  case True
  with assms(2) have "elemLoop call model 0 (Len (deref (heap s) model)) None s = Some (None, s')"
    by (simp add: eagerLoadDefault_body_def Let_def)
  from elemLoop_fields[OF assms(1) this] show ?thesis .
next
  case False
  show ?thesis
  proof (cases "AssociationsForStruct env (deref (heap s) model) (eagerFields (q s))")
    case (Inl x)
    with False assms(2) show ?thesis by (simp add: eagerLoadDefault_body_def Let_def)
  next
    case (Inr assos)
    with False assms(2) have "assocLoop call env model assos None s = Some (None, s')"
      by (simp add: eagerLoadDefault_body_def Let_def)
    from assocLoop_fields[OF assms(1) this] show ?thesis .
  qed
qed

lemma eagerLoadDefault_tracked: "tracked (eagerLoadDefault d env)"
proof (induction d)
  case 0
  show ?case by (simp add: tracked_def)
next
  case (Suc d)
  show ?case unfolding tracked_def
  proof (intro allI impI)
    fix p s s'
    assume run: "eagerLoadDefault (Suc d) env p s = Some (None, s')"
    let ?s0 = "emit (Enter p (eagerFields (q s))) s"
    from run obtain s1 where b: "eagerLoadDefault_body (eagerLoadDefault d env) env p ?s0 = Some (None, s1)"
      and s': "s' = emit (Exit p None) s1"
      by (auto split: option.splits)
    from body_fields[OF Suc b] obtain evs where
      l: "log s1 = log ?s0 @ evs" and f: "eagerFields (q s1) = fieldsAfter (eagerFields (q ?s0)) evs"
      by blast
    show "\<exists>evs. log s' = log s @ Enter p (eagerFields (q s)) # evs
            \<and> eagerFields (q s') = fieldsAfter (eagerFields (q s)) evs"
      using l f s' by (intro exI[of _ "evs @ [Exit p None]"]) (simp add: emit_def)
  qed
qed

lemma innerLoop_last:
  "inners \<noteq> [] \<Longrightarrow> innerLoop call model inners err s = Some (False, e, s') \<Longrightarrow>
     \<exists>s0. eagerFields (q s0) = [Fields (last inners)]
        \<and> call (model @ [Fld (Name (last inners))]) s0 = Some (None, s')"
proof (induction inners arbitrary: err s)
  case Nil
  then show ?case by simp
next
  case (Cons inner rest)
  note run = Cons.prems(2)
  show ?case
  proof (cases "deref (heap s) model")
    case (VStruct fs)
    let ?s1 = "s\<lparr>q := (q s)\<lparr>eagerFields := [Fields inner]\<rparr>\<rparr>"
    let ?p = "model @ [Fld (Name inner)]"
    from VStruct run obtain x where x: "map_of fs (Name inner) = Some x"
      by (cases "map_of fs (Name inner)") (auto simp: Let_def)
    with VStruct run obtain e1 s2 where c: "call ?p ?s1 = Some (e1, s2)"
      by (auto simp: Let_def split: option.splits)
    with VStruct x run have e1: "e1 = None" by (auto simp: Let_def split: if_splits)
    with VStruct x c run have r: "innerLoop call model rest e1 s2 = Some (False, e, s')"
      by (auto simp: Let_def)
    show ?thesis
    proof (cases "rest = []")
      case True
      with r have "s' = s2" by simp
      with c e1 True show ?thesis by (intro exI[of _ ?s1]) simp
    next
      case False
      from Cons.IH[OF False r] False show ?thesis by simp
    qed
  qed (use run in auto)
qed

lemma same_fields_after:
  "\<forall>p f. Enter p f \<in> set evs \<longrightarrow> f = F \<Longrightarrow> fieldsAfter F evs = F"
proof (induction evs)
  case Nil
  show ?case by simp
next
  case (Cons ev evs)
  then show ?case by (cases ev) auto
qed

lemma lib_inner_run:
  "map_option (\<lambda>(r, e, s). (r, e, eagerFields (q s)))
     (innerLoop (eagerLoadDefault 3 libEnv) [] [\<lparr>Name = ''Books'', Fields = ''Publisher.Address''\<rparr>]
        None libLoaded) = Some (False, None, [''Address''])"
  by (simp add: eval_nat_numeral run_rules libLoaded_def libState_def Q_def book_def publisher_def)

lemma shelf_run:
  "map_option (\<lambda>(e, s). (e, entered 1 (log s))) (eagerLoadDefault 3 libEnv [] shelfState) =
     Some (None, [([Idx 0], [''Publisher.Address'']), ([Idx 1], [''Address''])])"
  by (simp add: eval_nat_numeral run_rules shelfState_def Q_def book_def publisher_def)

text \<open>
  When the load of the field of a nested pair processes inner associations of its own, the
  field names of the query after the association are not its last nested filter: on the
  author loaded with \<open>Books.Publisher.Address\<close>, the association \<open>Books\<close> has the
  single nested filter \<open>Publisher.Address\<close>, and the query is left with \<open>Address\<close>.
\<close>

theorem eagerFields_after_nesting_counterexample:
  "aInner (hasMany ''Books'' [\<lparr>Name = ''Books'', Fields = ''Publisher.Address''\<rparr>]) =
     [\<lparr>Name = ''Books'', Fields = ''Publisher.Address''\<rparr>]
   \<and> map_option fst (assocLoop (eagerLoadDefault 3 libEnv) libEnv []
        [hasMany ''Books'' [\<lparr>Name = ''Books'', Fields = ''Publisher.Address''\<rparr>]] None libState) = Some None
   \<and> map_option (eagerFields \<circ> q \<circ> snd) (assocLoop (eagerLoadDefault 3 libEnv) libEnv []
        [hasMany ''Books'' [\<lparr>Name = ''Books'', Fields = ''Publisher.Address''\<rparr>]] None libState) =
       Some [''Address'']
   \<and> map_option (eagerFields \<circ> q \<circ> snd) (assocLoop (eagerLoadDefault 3 libEnv) libEnv []
        [hasMany ''Books'' [\<lparr>Name = ''Books'', Fields = ''Publisher.Address''\<rparr>]] None libState) \<noteq>
       Some [Fields (last (aInner (hasMany ''Books'' [\<lparr>Name = ''Books'', Fields = ''Publisher.Address''\<rparr>])))]"
  by (simp add: eval_nat_numeral run_rules libState_def Q_def author_def book_def publisher_def)

text \<open>
  C6, as amended. The loop over a non-empty list of inner associations overwrites the field
  names of the query with each nested filter and never restores them: when the loop has
  processed all the pairs, the state is the one returned by the call for the last pair,
  which started with the last nested filter as the field names of the query. The field
  names are then those with which the most recent call of the trace was entered, whatever
  they were before the loop; they are the last nested filter of the association when no
  call inside the load of the last pair was entered with other field names, and the filter
  of an association loaded inside it otherwise. A later call on the same query, such as the
  call on the next element of a collection, starts with these field names.
\<close>

theorem eagerFields_not_restored:
  assumes "inners \<noteq> []"
    and "innerLoop (eagerLoadDefault d env) model inners err s = Some (False, e, s')"
  shows "(\<exists>s0. eagerFields (q s0) = [Fields (last inners)]
           \<and> eagerLoadDefault d env (model @ [Fld (Name (last inners))]) s0 = Some (None, s')
           \<and> (\<forall>evs. log s' = log s0 @ evs
                  \<and> (\<forall>p f. Enter p f \<in> set evs \<longrightarrow> f = [Fields (last inners)])
                \<longrightarrow> eagerFields (q s') = [Fields (last inners)]))
       \<and> (\<exists>evs. log s' = log s @ evs \<and> (\<forall>f. eagerFields (q s') = fieldsAfter f evs))"
proof -
  let ?F = "[Fields (last inners)]"
  let ?p = "model @ [Fld (Name (last inners))]"
  from innerLoop_last[OF assms] obtain s0 where
    s0: "eagerFields (q s0) = ?F" and c: "eagerLoadDefault d env ?p s0 = Some (None, s')"
    by blast
  from trackedD[OF eagerLoadDefault_tracked c] obtain evs1 where
    l1: "log s' = log s0 @ Enter ?p (eagerFields (q s0)) # evs1"
    and f1: "eagerFields (q s') = fieldsAfter (eagerFields (q s0)) evs1" by blast
  have same: "\<forall>evs. log s' = log s0 @ evs \<and> (\<forall>p f. Enter p f \<in> set evs \<longrightarrow> f = ?F)
                \<longrightarrow> eagerFields (q s') = ?F"
  proof (intro allI impI)
    fix evs
    assume a: "log s' = log s0 @ evs \<and> (\<forall>p f. Enter p f \<in> set evs \<longrightarrow> f = ?F)"
    with l1 have ev: "evs = Enter ?p (eagerFields (q s0)) # evs1" by simp
    have "\<forall>p f. Enter p f \<in> set evs1 \<longrightarrow> f = ?F"
    proof (intro allI impI)
      fix p f assume "Enter p f \<in> set evs1"
      then have "Enter p f \<in> set evs" unfolding ev by simp
      with a show "f = ?F" by blast
    qed
    from same_fields_after[OF this] f1 s0 show "eagerFields (q s') = ?F" by simp
  qed
  have a: "\<exists>s0. eagerFields (q s0) = ?F \<and> eagerLoadDefault d env ?p s0 = Some (None, s')
           \<and> (\<forall>evs. log s' = log s0 @ evs \<and> (\<forall>p f. Enter p f \<in> set evs \<longrightarrow> f = ?F)
                \<longrightarrow> eagerFields (q s') = ?F)"
    using s0 c same by (intro exI[of _ s0] conjI)
  from innerLoop_fields[OF eagerLoadDefault_tracked assms(2)] assms(1)
  have b: "\<exists>evs. log s' = log s @ evs \<and> (\<forall>f. eagerFields (q s') = fieldsAfter f evs)"
    by blast
  from a b show ?thesis by (rule conjI)
qed

theorem eagerFields_not_restored_witness:
  "[\<lparr>Name = ''Books'', Fields = ''Publisher.Address''\<rparr>] \<noteq> []
   \<and> (\<exists>s'. innerLoop (eagerLoadDefault 3 libEnv) [] [\<lparr>Name = ''Books'', Fields = ''Publisher.Address''\<rparr>]
              None libLoaded = Some (False, None, s')
         \<and> eagerFields (q s') = [''Address'']
         \<and> (\<exists>s0. eagerFields (q s0) = [''Publisher.Address'']
                \<and> eagerLoadDefault 3 libEnv [Fld ''Books''] s0 = Some (None, s'))
         \<and> (\<exists>evs. log s' = log libLoaded @ evs \<and> (\<forall>f. eagerFields (q s') = fieldsAfter f evs)))
   \<and> map_option (\<lambda>(e, s). (e, entered 1 (log s))) (eagerLoadDefault 3 libEnv [] shelfState) =
        Some (None, [([Idx 0], [''Publisher.Address'']), ([Idx 1], [''Address''])])"
proof -
  let ?inners = "[\<lparr>Name = ''Books'', Fields = ''Publisher.Address''\<rparr>]"
  have ne: "?inners \<noteq> []" by simp
  from lib_inner_run obtain s' where
    run: "innerLoop (eagerLoadDefault 3 libEnv) [] ?inners None libLoaded = Some (False, None, s')"
    and fs: "eagerFields (q s') = [''Address'']"
    by (cases "innerLoop (eagerLoadDefault 3 libEnv) [] ?inners None libLoaded") auto
  note inst = eagerFields_not_restored [OF ne run]
  have a: "\<exists>s0. eagerFields (q s0) = [Fields (last ?inners)]
           \<and> eagerLoadDefault 3 libEnv ([] @ [Fld (Name (last ?inners))]) s0 = Some (None, s')
           \<and> (\<forall>evs. log s' = log s0 @ evs
                  \<and> (\<forall>p f. Enter p f \<in> set evs \<longrightarrow> f = [Fields (last ?inners)])
                \<longrightarrow> eagerFields (q s') = [Fields (last ?inners)])"
    using inst by (rule conjunct1)
  have b: "\<exists>evs. log s' = log libLoaded @ evs \<and> (\<forall>f. eagerFields (q s') = fieldsAfter f evs)"
    using inst by (rule conjunct2)
  from a obtain s0 where "eagerFields (q s0) = [Fields (last ?inners)]"
    "eagerLoadDefault 3 libEnv ([] @ [Fld (Name (last ?inners))]) s0 = Some (None, s')"
    by (elim exE conjE)
  then have a': "\<exists>s0. eagerFields (q s0) = [''Publisher.Address'']
                \<and> eagerLoadDefault 3 libEnv [Fld ''Books''] s0 = Some (None, s')"
    by (intro exI[of _ s0]) simp
  have ex: "\<exists>s'. innerLoop (eagerLoadDefault 3 libEnv) [] ?inners None libLoaded = Some (False, None, s')
         \<and> eagerFields (q s') = [''Address'']
         \<and> (\<exists>s0. eagerFields (q s0) = [''Publisher.Address'']
                \<and> eagerLoadDefault 3 libEnv [Fld ''Books''] s0 = Some (None, s'))
         \<and> (\<exists>evs. log s' = log libLoaded @ evs \<and> (\<forall>f. eagerFields (q s') = fieldsAfter f evs))"
    by (intro exI[of _ s'] conjI run fs a' b)
  show ?thesis
    by (intro conjI ne ex shelf_run)
qed

end
